theory Spec2Isabelle
  imports Complex_Main "HOL-Library.Product_Lexorder" "HOL-Library.Option_ord"
    "HOL-Library.Multiset"
begin

section \<open>Persistent records\<close>

text \<open>
  The three tables the game handlers read and write, one record per row
  (\<^verbatim>\<open>models/room.js\<close>, the \<^verbatim>\<open>RoomParticipant\<close> and \<^verbatim>\<open>User\<close> models).
  A nullable column is an \<open>option\<close>. Wall-clock instants are milliseconds since the
  epoch (\<^verbatim>\<open>Date.getTime()\<close>), an \<open>int\<close>. \<^verbatim>\<open>INTEGER\<close> columns, the score among them, are
  \<open>int\<close>. The primary key \<^verbatim>\<open>id\<close> of each model carries a suffix (\<open>id_r\<close>, \<open>id_p\<close>,
  \<open>id_u\<close>).

  Words and guesses are JavaScript strings that the handlers trim and lower-case; they
  are sequences of UTF-16 code units, \<open>jstring\<close>. \<open>utf16\<close> writes an ASCII literal as such
  a sequence. Room codes, phase names and display names are only compared and copied and
  stay \<open>string\<close>.
\<close>

type_synonym jstring = "nat list"

definition utf16 :: "string \<Rightarrow> jstring" where
  "utf16 s = map of_char s"

record room =
  id_r :: nat
  code :: string
  ownerId :: nat
  gameMode :: "string option"
  entryPoints :: int
  targetPoints :: int
  maxPointsPerRound :: int
  voiceEnabled :: bool
  status :: string
  currentWord :: "jstring option"
  usedWords :: "jstring list"
  currentWordOptions :: "jstring list option"
  currentDrawerId :: "nat option"
  lastDrawerId :: "nat option"
  currentRound :: int
  roundStartTime :: "int option"
  roundPhase :: "string option"
  roundPhaseEndTime :: "int option"
  roundRemainingTime :: "int option"
  drawerPointerIndex :: nat
  drawnUserIds :: "nat list"

record participant =
  id_p :: nat
  roomId :: nat
  userId :: nat
  team :: "string option"
  isDrawer :: bool
  score :: int
  points_updated_at :: "int option"
  hasDrawn :: bool
  hasGuessedThisRound :: bool
  hasPaidEntry :: bool
  eliminationCount :: int
  isActive :: bool
  socketId :: "string option"
  skipCount :: int

record user =
  id_u :: nat
  name :: string
  coins :: int

text \<open>
  A coin transaction row (\<^verbatim>\<open>CoinTransaction.create\<close>): user, amount, reason.
\<close>

type_synonym coin_transaction = "nat \<times> int \<times> string"

record db =
  rooms :: "room list"
  participants :: "participant list"
  users :: "user list"
  coinTransactions :: "coin_transaction list"

subsection \<open>Row access\<close>

text \<open>\<^verbatim>\<open>Room.findByPk(roomId)\<close>, \<^verbatim>\<open>User.findByPk(userId)\<close>.\<close>

definition findRoomByPk :: "db \<Rightarrow> nat \<Rightarrow> room option" where
  "findRoomByPk d k = find (\<lambda>r. id_r r = k) (rooms d)"

definition findUserByPk :: "db \<Rightarrow> nat \<Rightarrow> user option" where
  "findUserByPk d k = find (\<lambda>u. id_u u = k) (users d)"

text \<open>\<^verbatim>\<open>RoomParticipant.findOne({ where: { roomId, userId } })\<close>.\<close>

definition findParticipant :: "db \<Rightarrow> nat \<Rightarrow> nat \<Rightarrow> participant option" where
  "findParticipant d rid uid = find (\<lambda>p. roomId p = rid \<and> userId p = uid) (participants d)"

text \<open>
  \<^verbatim>\<open>getRoom(roomId)\<close> of the room cache module always loads the row from the
  database; the snapshot it refreshes on the side is a read-only copy that no handler
  below reads back, and is left out of the state.
\<close>

definition getRoom :: "db \<Rightarrow> nat \<Rightarrow> room option" where
  "getRoom d k = findRoomByPk d k"

section \<open>Atomic phase transition\<close>

text \<open>
  The \<^verbatim>\<open>updates\<close> object of \<^verbatim>\<open>Room.update(updates, {where})\<close>: a finite set of
  column assignments, applied in order.
\<close>

datatype room_update =
    Set_roundPhase "string option"
  | Set_roundPhaseEndTime "int option"
  | Set_roundRemainingTime "int option"
  | Set_roundStartTime "int option"
  | Set_currentDrawerId "nat option"
  | Set_currentWord "jstring option"
  | Set_currentWordOptions "jstring list option"
  | Set_status string

fun set_column :: "room_update \<Rightarrow> room \<Rightarrow> room" where
  "set_column (Set_roundPhase v) r = r\<lparr>roundPhase := v\<rparr>"
| "set_column (Set_roundPhaseEndTime v) r = r\<lparr>roundPhaseEndTime := v\<rparr>"
| "set_column (Set_roundRemainingTime v) r = r\<lparr>roundRemainingTime := v\<rparr>"
| "set_column (Set_roundStartTime v) r = r\<lparr>roundStartTime := v\<rparr>"
| "set_column (Set_currentDrawerId v) r = r\<lparr>currentDrawerId := v\<rparr>"
| "set_column (Set_currentWord v) r = r\<lparr>currentWord := v\<rparr>"
| "set_column (Set_currentWordOptions v) r = r\<lparr>currentWordOptions := v\<rparr>"
| "set_column (Set_status v) r = r\<lparr>status := v\<rparr>"

definition apply_updates :: "room_update list \<Rightarrow> room \<Rightarrow> room" where
  "apply_updates us r = fold set_column us r"

text \<open>
  \<^verbatim>\<open>Room.update(updates, { where: { id: roomId, roundPhase: fromPhase } })\<close>:
  the new table and the number of rows matched.
\<close>

definition Room_update_where_phase ::
  "db \<Rightarrow> nat \<Rightarrow> string option \<Rightarrow> room_update list \<Rightarrow> db \<times> nat" where
  "Room_update_where_phase d k fromPhase us =
     (let hit = (\<lambda>r. id_r r = k \<and> roundPhase r = fromPhase)
      in (d\<lparr>rooms := map (\<lambda>r. if hit r then apply_updates us r else r) (rooms d)\<rparr>,
          length (filter hit (rooms d))))"

text \<open>
  \<^verbatim>\<open>transitionPhase(roomId, fromPhase, updates)\<close> of \<^verbatim>\<open>roundPhases.js\<close>: the
  guarded update, \<^verbatim>\<open>null\<close> when no row matched, otherwise the row read back.
\<close>

definition transitionPhase ::
  "db \<Rightarrow> nat \<Rightarrow> string option \<Rightarrow> room_update list \<Rightarrow> db \<times> room option" where
  "transitionPhase d k fromPhase us =
     (case Room_update_where_phase d k fromPhase us of
        (d', affectedCount) \<Rightarrow>
          if affectedCount = 0 then (d, None) else (d', getRoom d' k))"


section \<open>Strings and events\<close>

text \<open>
  \<^verbatim>\<open>String.prototype.trim\<close> removes from both ends the code units that ECMAScript
  counts as white space or line terminators: tab, line feed, vertical tab, form feed,
  carriage return, space, no-break space U+00A0, U+1680, U+2000 to U+200A, the line and
  paragraph separators U+2028 and U+2029, U+202F, U+205F, U+3000 and the byte order mark
  U+FEFF.
\<close>

definition isWhiteSpace :: "nat \<Rightarrow> bool" where
  "isWhiteSpace c \<longleftrightarrow>
     c \<in> {0x09, 0x0A, 0x0B, 0x0C, 0x0D, 0x20, 0xA0, 0x1680, 0x2028, 0x2029, 0x202F, 0x205F,
          0x3000, 0xFEFF}
     \<or> (0x2000 \<le> c \<and> c \<le> 0x200A)"

definition trim :: "jstring \<Rightarrow> jstring" where
  "trim s = rev (dropWhile isWhiteSpace (rev (dropWhile isWhiteSpace s)))"

text \<open>
  \<^verbatim>\<open>String.prototype.toLowerCase\<close> follows the Unicode case tables of the JavaScript
  engine. It is not code of this repository and its tables are not reproduced: the
  handlers below take it as their first argument, \<open>toLowerCase\<close>, and every theorem
  about them holds whatever function it is.
\<close>

text \<open>
  What an \<^verbatim>\<open>INTEGER\<close> column keeps when a JavaScript number is written to it: the
  database rounds to the nearest integer, a half away from zero. An integral number is
  kept as it is.
\<close>

definition storeInteger :: "rat \<Rightarrow> int" where
  "storeInteger x = (if 0 \<le> x then \<lfloor>x + 1 / 2\<rfloor> else \<lceil>x - 1 / 2\<rceil>)"

record ranking =
  place :: nat
  rk_userId :: nat
  rk_name :: string
  rk_score :: int
  coinsAwarded :: int
  rk_team :: "string option"

text \<open>
  The socket events the handlers emit, each with the payload fields the handlers compute.
  \<open>E_guess_result\<close> goes to the sending socket, the others to the room.
\<close>

datatype event =
    E_guess_result bool string
  | E_incorrect_guess nat jstring
  | E_score_update nat rat
  | E_correct_guess nat int int
  | E_phase_change string int "rat option"
  | E_game_ended "ranking list" int string
  | E_room_participants "nat list"
  | E_room_closed string
  | E_player_removed nat
  | E_drawer_skipped nat int
  | E_drawer_selected nat
  | E_game_started int
  | E_clear_chat
  | E_error string

text \<open>The name under which each event is emitted.\<close>

fun event_name :: "event \<Rightarrow> string" where
  "event_name (E_guess_result ok m) = ''guess_result''"
| "event_name (E_incorrect_guess u g) = ''incorrect_guess''"
| "event_name (E_score_update u s) = ''score_update''"
| "event_name (E_correct_guess u pts rem) = ''correct_guess''"
| "event_name (E_phase_change ph t rw) = ''phase_change''"
| "event_name (E_game_ended rks cost m) = ''game_ended''"
| "event_name (E_room_participants us) = ''room_participants''"
| "event_name (E_room_closed c) = ''room_closed''"
| "event_name (E_player_removed u) = ''player_removed''"
| "event_name (E_drawer_skipped u n) = ''drawer_skipped''"
| "event_name (E_drawer_selected u) = ''drawer_selected''"
| "event_name (E_game_started c) = ''game_started''"
| "event_name E_clear_chat = ''clear_chat''"
| "event_name (E_error m) = ''error''"

section \<open>Scoring helpers (\<^verbatim>\<open>gameHelpers.js\<close>)\<close>

definition PHASE_DURATIONS :: "string \<Rightarrow> int" where
  "PHASE_DURATIONS k =
     (if k = ''selecting_drawer'' then 5 else if k = ''choosing_word'' then 10
      else if k = ''drawing'' then 80 else if k = ''reveal'' then 7
      else if k = ''interval'' then 4 else 120)"

definition calculateEntryCost :: "int \<Rightarrow> bool \<Rightarrow> int" where
  "calculateEntryCost entryPts voice = entryPts"

text \<open>\<^verbatim>\<open>Math.min(Math.ceil(remainingTime / 8), maxPoints)\<close>.\<close>

definition calculateGuessReward :: "int \<Rightarrow> int \<Rightarrow> int" where
  "calculateGuessReward remainingTime maxPoints =
     min \<lceil>(of_int remainingTime :: rat) / 8\<rceil> maxPoints"

text \<open>
  \<^verbatim>\<open>updateParticipantScore(participant, pointsToAdd)\<close>: the instance read earlier gets
  its score raised and its tie-break stamp set, and is saved under its primary key. The
  number \<^verbatim>\<open>participant.score + pointsToAdd\<close> need not be integral; the row keeps what the
  \<^verbatim>\<open>INTEGER\<close> column stores for it.
\<close>

definition updateParticipantScore :: "db \<Rightarrow> participant \<Rightarrow> rat \<Rightarrow> int \<Rightarrow> db" where
  "updateParticipantScore d p pointsToAdd now =
     d\<lparr>participants :=
         map (\<lambda>x. if id_p x = id_p p
                  then x\<lparr>score := storeInteger (of_int (score p) + pointsToAdd),
                         points_updated_at := Some now\<rparr>
                  else x) (participants d)\<rparr>"

text \<open>
  \<^verbatim>\<open>RoomParticipant.findAll({ where: { roomId, isActive: true } })\<close>, and the same query
  with \<^verbatim>\<open>order: [["score","DESC"],["points_updated_at","ASC"]]\<close> (a \<^verbatim>\<open>NULL\<close> stamp sorts
  first; rows equal in both columns keep their table order).
\<close>

definition findAllActive :: "db \<Rightarrow> nat \<Rightarrow> participant list" where
  "findAllActive d rid = filter (\<lambda>p. roomId p = rid \<and> isActive p) (participants d)"

definition findAllActiveOrdered :: "db \<Rightarrow> nat \<Rightarrow> participant list" where
  "findAllActiveOrdered d rid =
     sort_key (\<lambda>p. (- score p, points_updated_at p)) (findAllActive d rid)"

text \<open>
  The comparator of \<^verbatim>\<open>finalParticipants.sort\<close> in \<^verbatim>\<open>endGame\<close>: higher score first, then
  the earlier stamp, a missing stamp counting as 0. The sort is stable.
\<close>

definition timeOf :: "participant \<Rightarrow> int" where
  "timeOf p = (case points_updated_at p of None \<Rightarrow> 0 | Some t \<Rightarrow> t)"

definition sortFinal :: "participant list \<Rightarrow> participant list" where
  "sortFinal ps = sort_key (\<lambda>p. (- score p, timeOf p)) ps"

definition displayName :: "db \<Rightarrow> participant \<Rightarrow> string" where
  "displayName d p =
     (case findUserByPk d (userId p) of
        None \<Rightarrow> ''Guest''
      | Some u \<Rightarrow> if name u = [] then ''Guest'' else name u)"

text \<open>\<^verbatim>\<open>user.coins += amount; user.save(); CoinTransaction.create(...)\<close>.\<close>

definition creditUser :: "db \<Rightarrow> user \<Rightarrow> int \<Rightarrow> string \<Rightarrow> db" where
  "creditUser d u amount reason =
     d\<lparr>users := map (\<lambda>x. if id_u x = id_u u then x\<lparr>coins := coins u + amount\<rparr> else x) (users d),
       coinTransactions := coinTransactions d @ [(id_u u, amount, reason)]\<rparr>"

definition rewards :: "(nat \<times> int) list" where
  "rewards = [(1, 3), (2, 2), (3, 1)]"

definition placeDigit :: "nat \<Rightarrow> string" where
  "placeDigit n = [char_of (48 + n)]"

text \<open>
  The first loop of the free-for-all branch, over the first three of the sorted rows:
  index \<open>i\<close> gets place \<open>i + 1\<close>; a row whose user is missing gets no ranking entry.
\<close>

fun awardPlaces :: "db \<Rightarrow> int \<Rightarrow> bool \<Rightarrow> nat \<Rightarrow> participant list \<Rightarrow> db \<times> ranking list" where
  "awardPlaces d entryCost isTwoPlayer i [] = (d, [])"
| "awardPlaces d entryCost isTwoPlayer i (p # ps) =
     (let currentPlace = i + 1;
          won = (if isTwoPlayer then (if currentPlace = 1 then entryCost * 2 else 0)
                 else entryCost * snd (rewards ! i))
      in case findUserByPk d (userId p) of
           None \<Rightarrow> awardPlaces d entryCost isTwoPlayer (i + 1) ps
         | Some u \<Rightarrow>
             (let d1 = (if won > 0
                        then creditUser d u won (''game_reward_place_'' @ placeDigit currentPlace)
                        else d);
                  entry = \<lparr>place = currentPlace, rk_userId = userId p, rk_name = displayName d p,
                           rk_score = score p, coinsAwarded = won, rk_team = None\<rparr>
              in case awardPlaces d1 entryCost isTwoPlayer (i + 1) ps of
                   (d2, rest) \<Rightarrow> (d2, entry # rest)))"

text \<open>The second loop: everybody from index 3 on, with no coins.\<close>

fun remainingPlaces :: "db \<Rightarrow> nat \<Rightarrow> participant list \<Rightarrow> ranking list" where
  "remainingPlaces d i [] = []"
| "remainingPlaces d i (p # ps) =
     \<lparr>place = i + 1, rk_userId = userId p, rk_name = displayName d p,
      rk_score = score p, coinsAwarded = 0, rk_team = None\<rparr> # remainingPlaces d (i + 1) ps"

text \<open>
  The team branch groups the rows by team in two objects, \<^verbatim>\<open>teamScores\<close> and
  \<^verbatim>\<open>teamMembers\<close>, kept here as association lists in insertion order. The test
  \<^verbatim>\<open>!teamScores[team]\<close> holds for a missing key and for a stored score of 0.
  \<^verbatim>\<open>Object.keys\<close> lists the keys that are array indices (canonical decimal numerals
  below \<open>2^32 - 1\<close>) first, in ascending numeric order, and then the other keys in
  insertion order.
\<close>

definition keyNumber :: "string \<Rightarrow> nat" where
  "keyNumber k = foldl (\<lambda>n c. 10 * n + (of_char c - 48)) 0 k"

definition isArrayIndex :: "string \<Rightarrow> bool" where
  "isArrayIndex k \<longleftrightarrow>
     k \<noteq> [] \<and> (\<forall>c\<in>set k. (48::nat) \<le> of_char c \<and> of_char c \<le> (57::nat))
     \<and> (length k = 1 \<or> hd k \<noteq> CHR ''0'') \<and> keyNumber k < 4294967295"

definition objectKeys :: "(string \<times> 'v) list \<Rightarrow> string list" where
  "objectKeys kvs =
     sort_key keyNumber (filter isArrayIndex (map fst kvs))
       @ filter (\<lambda>k. \<not> isArrayIndex k) (map fst kvs)"

fun upsert :: "'k \<Rightarrow> 'v \<Rightarrow> ('k \<times> 'v) list \<Rightarrow> ('k \<times> 'v) list" where
  "upsert k v [] = [(k, v)]"
| "upsert k v ((k', v') # kvs) = (if k' = k then (k, v) # kvs else (k', v') # upsert k v kvs)"

definition membersOf :: "(string \<times> participant list) list \<Rightarrow> string \<Rightarrow> participant list" where
  "membersOf tm t = (case map_of tm t of None \<Rightarrow> [] | Some ms \<Rightarrow> ms)"

fun groupByTeam ::
  "participant list \<Rightarrow> (string \<times> int) list \<Rightarrow> (string \<times> participant list) list
     \<Rightarrow> (string \<times> int) list \<times> (string \<times> participant list) list" where
  "groupByTeam [] ts tm = (ts, tm)"
| "groupByTeam (p # ps) ts tm =
     (case team p of
        None \<Rightarrow> groupByTeam ps ts tm
      | Some t \<Rightarrow>
          if t = [] then groupByTeam ps ts tm
          else
            (let fresh = (case map_of ts t of None \<Rightarrow> True | Some s \<Rightarrow> s = 0);
                 ts1 = (if fresh then upsert t (score p) ts else ts);
                 tm1 = (if fresh then upsert t [] tm else tm);
                 tm2 = upsert t (membersOf tm1 t @ [p]) tm1
             in groupByTeam ps ts1 tm2))"

definition teamScoreOf :: "(string \<times> int) list \<Rightarrow> string \<Rightarrow> int" where
  "teamScoreOf ts t = (case map_of ts t of None \<Rightarrow> 0 | Some s \<Rightarrow> s)"

fun awardWinners :: "db \<Rightarrow> int \<Rightarrow> participant list \<Rightarrow> db \<times> ranking list" where
  "awardWinners d won [] = (d, [])"
| "awardWinners d won (p # ps) =
     (case findUserByPk d (userId p) of
        None \<Rightarrow> awardWinners d won ps
      | Some u \<Rightarrow>
          (let d1 = creditUser d u won ''game_reward_team_vs_team_winner'';
               entry = \<lparr>place = 1, rk_userId = userId p, rk_name = displayName d p,
                        rk_score = score p, coinsAwarded = won, rk_team = team p\<rparr>
           in case awardWinners d1 won ps of (d2, rest) \<Rightarrow> (d2, entry # rest)))"

definition placedAt :: "db \<Rightarrow> nat \<Rightarrow> participant \<Rightarrow> ranking" where
  "placedAt d n p =
     \<lparr>place = n, rk_userId = userId p, rk_name = displayName d p,
      rk_score = score p, coinsAwarded = 0, rk_team = team p\<rparr>"

fun losingTeams ::
  "db \<Rightarrow> (string \<times> participant list) list \<Rightarrow> nat \<Rightarrow> string list \<Rightarrow> ranking list" where
  "losingTeams d tm i [] = []"
| "losingTeams d tm i (t # ts) = map (placedAt d (i + 1)) (membersOf tm t) @ losingTeams d tm (i + 1) ts"

definition hasNoTeam :: "participant \<Rightarrow> bool" where
  "hasNoTeam p \<longleftrightarrow> (case team p of None \<Rightarrow> True | Some t \<Rightarrow> t = [])"

text \<open>
  \<^verbatim>\<open>endGame(io, room, participants)\<close>: the room is marked finished, the active rows are
  read again in ranking order, coins are paid and \<^verbatim>\<open>game_ended\<close> is broadcast. The
  return to the lobby two seconds later is a timer callback of its own.
\<close>

definition endGame :: "db \<Rightarrow> room \<Rightarrow> db \<times> event list" where
  "endGame d rm =
     (let d0 = d\<lparr>rooms := map (\<lambda>x. if id_r x = id_r rm then x\<lparr>status := ''finished''\<rparr> else x) (rooms d)\<rparr>;
          finalParticipants = findAllActiveOrdered d0 (id_r rm);
          entryCost = calculateEntryCost (entryPoints rm) (voiceEnabled rm);
          mode = (case gameMode rm of None \<Rightarrow> ''1v1'' | Some g \<Rightarrow> if g = [] then ''1v1'' else g)
      in if mode = ''team_vs_team'' then
           (case groupByTeam finalParticipants [] [] of
              (teamScores, teamMembers) \<Rightarrow>
                (let teams = sort_key (\<lambda>t. - teamScoreOf teamScores t) (objectKeys teamScores)
                 in case teams of
                      [] \<Rightarrow> (d0, [])
                    | winningTeam # others \<Rightarrow>
                        (case awardWinners d0 (entryCost * 2) (membersOf teamMembers winningTeam) of
                           (d1, winners) \<Rightarrow>
                             (d1, [E_game_ended
                                     (winners @ losingTeams d0 teamMembers 1 others
                                        @ map (placedAt d0 (length teams + 1))
                                            (filter hasNoTeam finalParticipants))
                                     entryCost mode]))))
         else
           (let ranked = sortFinal finalParticipants;
                isTwoPlayer = (length ranked = 2)
            in case awardPlaces d0 entryCost isTwoPlayer 0 (take 3 ranked) of
                 (d1, top3) \<Rightarrow>
                   (d1, [E_game_ended (top3 @ remainingPlaces d0 3 (drop 3 ranked)) entryCost mode])))"

text \<open>\<^verbatim>\<open>checkGameEnd(io, room)\<close>: the game ends when an active row has reached the target.\<close>

definition checkGameEnd :: "db \<Rightarrow> room \<Rightarrow> (db \<times> event list) \<times> bool" where
  "checkGameEnd d rm =
     (case find (\<lambda>p. score p \<ge> targetPoints rm) (findAllActiveOrdered d (id_r rm)) of
        Some winner \<Rightarrow> (endGame d rm, True)
      | None \<Rightarrow> ((d, []), False))"

text \<open>
  Names for two quantities of \<^verbatim>\<open>endGame\<close>: the coins the free-for-all branch computes
  for index \<open>k\<close> of the ranking (\<^verbatim>\<open>isTwoPlayer ? (place === 1 ? 2 * entry : 0) : entry *
  multiplier\<close>), and a user's balance.
\<close>

definition prize :: "int \<Rightarrow> bool \<Rightarrow> nat \<Rightarrow> int" where
  "prize e two k = (if two then (if k = 0 then e * 2 else 0) else e * snd (rewards ! k))"

definition coinsOf :: "db \<Rightarrow> nat \<Rightarrow> int option" where
  "coinsOf d k = map_option coins (findUserByPk d k)"


section \<open>End of the drawing phase (\<^verbatim>\<open>roundPhases.js\<close>)\<close>

text \<open>
  \<^verbatim>\<open>endDrawingPhase(io, room)\<close>, with the clock reading \<open>now\<close>. The caller that loses
  the transition returns at once. The winner pays the drawer (never in team mode),
  broadcasts the reveal and checks for the end of the game. Scheduling the reveal timer
  changes no row and is not part of the model. A missing end time on the row read back
  would raise inside the \<^verbatim>\<open>try\<close> block and stop the handler where it is.
\<close>

definition endDrawingPhase :: "db \<Rightarrow> room \<Rightarrow> int \<Rightarrow> db \<times> event list" where
  "endDrawingPhase d rm now =
     (case transitionPhase d (id_r rm) (Some ''drawing'')
             [Set_roundPhase (Some ''reveal''),
              Set_roundPhaseEndTime (Some (now + PHASE_DURATIONS ''reveal'' * 1000)),
              Set_roundRemainingTime (Some (PHASE_DURATIONS ''reveal''))] of
        (d1, None) \<Rightarrow> (d, [])
      | (d1, Some room') \<Rightarrow>
          (let guessedCount =
                 length (filter (\<lambda>p. roomId p = id_r room' \<and> hasGuessedThisRound p) (participants d1));
               drawer = (case currentDrawerId room' of
                           None \<Rightarrow> None
                         | Some u \<Rightarrow> findParticipant d1 (id_r room') u);
               active = findAllActive d1 (id_r room');
               eligibleGuessers = max 1 (int (length active) - 1);
               drawerPoints = min ((20 * of_nat guessedCount) / of_int eligibleGuessers)
                                  (of_int (maxPointsPerRound room'));
               teamMode = (gameMode room' = Some ''team_vs_team'')
           in case (case drawer of
                      Some dr \<Rightarrow>
                        if guessedCount > 0 \<and> \<not> teamMode
                        then (updateParticipantScore d1 dr drawerPoints now,
                              [E_score_update (userId dr) (of_int (score dr) + drawerPoints)])
                        else (d1, [])
                    | None \<Rightarrow> (d1, [])) of
                (d2, paid) \<Rightarrow>
                  (let drawerRewardValue =
                         (if teamMode then 0
                          else if drawer \<noteq> None \<and> guessedCount > 0 then drawerPoints else 0)
                   in case roundPhaseEndTime room' of
                        None \<Rightarrow> (d2, paid)
                      | Some phaseEndTimeMs \<Rightarrow>
                          (case checkGameEnd d2 room' of
                             ((d3, ended), gameEnded) \<Rightarrow>
                               (d3, paid @ [E_phase_change ''reveal'' phaseEndTimeMs (Some drawerRewardValue)]
                                      @ ended)))))"

text \<open>
  Names for the quantities \<^verbatim>\<open>endDrawingPhase\<close> computes from the room row \<open>r\<close>: the
  drawer's row, the drawer's points \<open>min(20 G / max(1, N - 1), maxPointsPerRound)\<close>
  with \<open>G\<close> the rows of the room marked as having guessed and \<open>N\<close> the active rows,
  and the test under which the drawer is paid. \<open>finishRoom\<close> is the write of
  \<^verbatim>\<open>status = "finished"\<close> in \<^verbatim>\<open>endGame\<close>.
\<close>

definition drawerOf :: "db \<Rightarrow> room \<Rightarrow> participant option" where
  "drawerOf d r = (case currentDrawerId r of None \<Rightarrow> None
       | Some u \<Rightarrow> findParticipant d (id_r r) u)"

definition drawerPointsOf :: "db \<Rightarrow> room \<Rightarrow> rat" where
  "drawerPointsOf d r =
     min ((20 * of_nat (length (filter (\<lambda>p. roomId p = id_r r \<and> hasGuessedThisRound p) (participants d))))
            / of_int (max 1 (int (length (findAllActive d (id_r r))) - 1)))
         (of_int (maxPointsPerRound r))"

definition paysDrawer :: "db \<Rightarrow> room \<Rightarrow> bool" where
  "paysDrawer d r \<longleftrightarrow> drawerOf d r \<noteq> None
      \<and> (\<exists>p\<in>set (participants d). roomId p = id_r r \<and> hasGuessedThisRound p)
      \<and> gameMode r \<noteq> Some ''team_vs_team''"

definition finishRoom :: "nat \<Rightarrow> room list \<Rightarrow> room list" where
  "finishRoom k rs = map (\<lambda>x. if id_r x = k then x\<lparr>status := ''finished''\<rparr> else x) rs"

section \<open>The \<^verbatim>\<open>submit_guess\<close> handler (\<^verbatim>\<open>socket.js\<close>)\<close>

text \<open>
  \<^verbatim>\<open>getRoomByCode(code)\<close>: the code index is a cache in front of
  \<^verbatim>\<open>Room.findOne({ where: { code } })\<close>; codes are unique and never change.
\<close>

definition getRoomByCode :: "db \<Rightarrow> string \<Rightarrow> room option" where
  "getRoomByCode d c = (if c = [] then None else find (\<lambda>r. code r = c) (rooms d))"

text \<open>
  The room lookup every handler starts with: by \<^verbatim>\<open>roomCode\<close> when one is given
  (a missing or empty code is falsy), else by \<^verbatim>\<open>roomId\<close> (missing or 0 is falsy).
\<close>

definition resolveRoom :: "db \<Rightarrow> string option \<Rightarrow> nat option \<Rightarrow> room option" where
  "resolveRoom d roomCode roomIdArg =
     (let byId = (case roomIdArg of
                    None \<Rightarrow> None
                  | Some k \<Rightarrow> if k = 0 then None else findRoomByPk d k)
      in case roomCode of
           None \<Rightarrow> byId
         | Some c \<Rightarrow> if c = [] then byId else getRoomByCode d c)"

text \<open>
  The body of the team transaction: the active rows of the guesser's team are read under
  lock; if one of them is already marked, nothing is written; otherwise each of them gets
  the reward, the stamp and the mark.
\<close>

definition inTeam :: "nat \<Rightarrow> string option \<Rightarrow> participant \<Rightarrow> bool" where
  "inTeam rid t p \<longleftrightarrow> roomId p = rid \<and> team p = t \<and> isActive p"

definition teamAward :: "db \<Rightarrow> nat \<Rightarrow> string option \<Rightarrow> int \<Rightarrow> int \<Rightarrow> db" where
  "teamAward d rid t reward now =
     (let teamParticipants = filter (inTeam rid t) (participants d);
          teamHasGuessed = list_ex hasGuessedThisRound teamParticipants
      in if teamHasGuessed then d
         else d\<lparr>participants :=
                  map (\<lambda>p. if inTeam rid t p
                           then p\<lparr>score := score p + reward,
                                  points_updated_at := Some now,
                                  hasGuessedThisRound := True\<rparr>
                           else p) (participants d)\<rparr>)"

text \<open>What the transaction writes to one row: the award, for the rows of the team.\<close>

definition awardRow :: "nat \<Rightarrow> string option \<Rightarrow> int \<Rightarrow> int \<Rightarrow> participant \<Rightarrow> participant" where
  "awardRow rid t reward now x =
     (if inTeam rid t x
      then x\<lparr>score := score x + reward, points_updated_at := Some now, hasGuessedThisRound := True\<rparr>
      else x)"

text \<open>Gate 6: in team mode the guesser must be on the drawer's team.\<close>

definition wrongTeam :: "db \<Rightarrow> room \<Rightarrow> participant \<Rightarrow> bool" where
  "wrongTeam d rm p =
     (case (case currentDrawerId rm of
              None \<Rightarrow> None
            | Some u \<Rightarrow> findParticipant d (id_r rm) u) of
        None \<Rightarrow> True
      | Some drawer \<Rightarrow> team p \<noteq> team drawer)"

text \<open>\<^verbatim>\<open>Date.now() > room.roundPhaseEndTime\<close>; a \<^verbatim>\<open>null\<close> end time compares as 0.\<close>

definition roundEnded :: "room \<Rightarrow> int \<Rightarrow> bool" where
  "roundEnded rm t = (case roundPhaseEndTime rm of None \<Rightarrow> t > 0 | Some e \<Rightarrow> t > e)"

text \<open>
  The seconds left when the reward is computed, at clock reading \<open>t\<close>:
  \<^verbatim>\<open>Math.max(0, Math.ceil((room.roundPhaseEndTime - Date.now()) / 1000))\<close>, or the
  stored \<^verbatim>\<open>roundRemainingTime\<close> when the row has no end time (\<^verbatim>\<open>null\<close> counts as 0).
\<close>

definition remainingAt :: "room \<Rightarrow> int \<Rightarrow> int" where
  "remainingAt rm t =
     (case roundPhaseEndTime rm of
        Some e \<Rightarrow> max 0 \<lceil>(of_int (e - t) :: rat) / 1000\<rceil>
      | None \<Rightarrow> (case roundRemainingTime rm of None \<Rightarrow> 0 | Some v \<Rightarrow> v))"

text \<open>
  The correct-guess branch. \<open>t1\<close> is the clock at the \<^verbatim>\<open>round_ended\<close> test, \<open>t2\<close> the
  clock when the reward is computed; later reads of the clock in the same run (the
  stamps, the reveal end time) are taken at \<open>t2\<close> too.
\<close>

definition correctGuess ::
  "db \<Rightarrow> room \<Rightarrow> user \<Rightarrow> participant \<Rightarrow> int \<Rightarrow> db \<times> event list" where
  "correctGuess d rm u p t2 =
     (let roundRemaining = remainingAt rm t2;
          reward = calculateGuessReward roundRemaining (maxPointsPerRound rm);
          teamMode = (gameMode rm = Some ''team_vs_team'');
          d1 = (if teamMode then teamAward d (id_r rm) (team p) reward t2
                else (let d' = updateParticipantScore d p (of_int reward) t2
                      in d'\<lparr>participants :=
                             map (\<lambda>x. if id_p x = id_p p then x\<lparr>hasGuessedThisRound := True\<rparr> else x)
                                 (participants d')\<rparr>));
          scores = (if teamMode
                    then map (\<lambda>m. E_score_update (userId m) (of_int (score m)))
                             (filter (inTeam (id_r rm) (team p)) (participants d1))
                    else [E_score_update (userId p) (of_int (score p) + of_int reward)]);
          announced = scores @ [E_correct_guess (id_u u) reward roundRemaining];
          listing = [E_room_participants (map userId (findAllActive d1 (id_r rm)))]
      in if teamMode then
           (case endDrawingPhase d1 rm t2 of (d2, ended) \<Rightarrow> (d2, announced @ ended @ listing))
         else
           (case findRoomByPk d1 (id_r rm) of
              None \<Rightarrow> (d1, announced)
            | Some freshRoom \<Rightarrow>
                (let eligibleCount =
                       length (filter (\<lambda>x. roomId x = id_r freshRoom \<and> isActive x \<and> \<not> isDrawer x)
                                 (participants d1));
                     guessedCount =
                       length (filter (\<lambda>x. roomId x = id_r freshRoom \<and> isActive x \<and> hasGuessedThisRound x)
                                 (participants d1))
                 in if eligibleCount = 0 \<or> guessedCount \<ge> eligibleCount
                    then (case endDrawingPhase d1 freshRoom t2 of
                            (d2, ended) \<Rightarrow> (d2, announced @ ended @ listing))
                    else (d1, announced @ listing))))"

text \<open>Step 7 of the handler: the comparison, then one of the two branches.\<close>

definition processGuess ::
  "(jstring \<Rightarrow> jstring) \<Rightarrow> db \<Rightarrow> room \<Rightarrow> jstring \<Rightarrow> user \<Rightarrow> participant \<Rightarrow> jstring \<Rightarrow> int \<Rightarrow> int
     \<Rightarrow> db \<times> event list" where
  "processGuess toLowerCase d rm w u p guess t1 t2 =
     (let normalized = toLowerCase (trim guess);
          word = toLowerCase (trim w);
          isCorrect = (normalized = word)
      in if isCorrect then
           (if roundEnded rm t1 then (d, [E_guess_result False ''round_ended''])
            else correctGuess d rm u p t2)
         else (d, [E_incorrect_guess (id_u u) guess, E_guess_result False ''incorrect'']))"

text \<open>
  The handler: \<open>toLowerCase\<close> is the engine's lower-casing, \<open>su\<close> is \<^verbatim>\<open>socket.user\<close>, the
  other arguments are the payload and the two clock readings. \<open>guess\<close> is the string
  \<^verbatim>\<open>(guess || "").toString()\<close>.
\<close>

definition submit_guess ::
  "(jstring \<Rightarrow> jstring) \<Rightarrow> db \<Rightarrow> user option \<Rightarrow> string option \<Rightarrow> nat option \<Rightarrow> jstring \<Rightarrow> int \<Rightarrow> int
     \<Rightarrow> db \<times> event list" where
  "submit_guess toLowerCase d su roomCode roomIdArg guess t1 t2 =
     (case resolveRoom d roomCode roomIdArg of
        None \<Rightarrow> (d, [E_guess_result False ''room_not_found''])
      | Some rm \<Rightarrow>
          if roundPhase rm \<noteq> Some ''drawing'' then (d, [E_guess_result False ''not_drawing_phase''])
          else if currentWord rm = None \<or> currentWord rm = Some [] then
            (d, [E_guess_result False ''no_active_word''])
          else if su = None \<or> map_option id_u su = Some 0 then
            (d, [E_guess_result False ''not_authenticated''])
          else
            (case (currentWord rm, su) of
               (Some w, Some u) \<Rightarrow>
                 (case findParticipant d (id_r rm) (id_u u) of
                    None \<Rightarrow> (d, [E_guess_result False ''not_in_room''])
                  | Some p \<Rightarrow>
                      if isDrawer p then (d, [E_guess_result False ''drawer_cannot_guess''])
                      else if hasGuessedThisRound p then (d, [E_guess_result False ''already_guessed''])
                      else if gameMode rm = Some ''team_vs_team'' \<and> wrongTeam d rm p then
                        (d, [E_guess_result False ''wrong_team''])
                      else processGuess toLowerCase d rm w u p guess t1 t2)
             | _ \<Rightarrow> (d, [])))"

text \<open>
  The six gates of the handler, passed: the room \<open>rm\<close> is found and is in the drawing
  phase with word \<open>w\<close>, the socket is authenticated as \<open>u\<close>, whose row \<open>p\<close> in the room
  is not the drawer's, is not yet marked as having guessed and, in team mode, is on the
  drawer's team.
\<close>

definition admitted ::
  "db \<Rightarrow> user option \<Rightarrow> string option \<Rightarrow> nat option \<Rightarrow> room \<Rightarrow> jstring \<Rightarrow> user \<Rightarrow> participant \<Rightarrow> bool" where
  "admitted d su roomCode roomIdArg rm w u p \<longleftrightarrow>
     resolveRoom d roomCode roomIdArg = Some rm \<and> roundPhase rm = Some ''drawing''
     \<and> currentWord rm = Some w \<and> w \<noteq> [] \<and> su = Some u \<and> id_u u \<noteq> 0
     \<and> findParticipant d (id_r rm) (id_u u) = Some p
     \<and> \<not> isDrawer p \<and> \<not> hasGuessedThisRound p
     \<and> \<not> (gameMode rm = Some ''team_vs_team'' \<and> wrongTeam d rm p)"




section \<open>The \<^verbatim>\<open>start_game\<close> handler (\<^verbatim>\<open>socket.js\<close>)\<close>

text \<open>
  \<^verbatim>\<open>readyState.js\<close>: per room, the set of users who tapped Ready, kept in memory.
\<close>

type_synonym ready_sets = "nat \<rightharpoonup> nat set"

definition areAllReady :: "ready_sets \<Rightarrow> nat \<Rightarrow> nat list \<Rightarrow> bool" where
  "areAllReady rs rid participantUserIds =
     (if participantUserIds = [] then False
      else case rs rid of
             None \<Rightarrow> False
           | Some s \<Rightarrow> list_all (\<lambda>i. i \<in> s) participantUserIds)"

definition clearRoom :: "ready_sets \<Rightarrow> nat \<Rightarrow> ready_sets" where
  "clearRoom rs rid = rs(rid := None)"

text \<open>\<^verbatim>\<open>participant.hasPaidEntry = true; participant.save()\<close>: one column of one row.\<close>

definition markPaid :: "db \<Rightarrow> participant \<Rightarrow> db" where
  "markPaid d p =
     d\<lparr>participants := map (\<lambda>x. if id_p x = id_p p then x\<lparr>hasPaidEntry := True\<rparr> else x)
                            (participants d)\<rparr>"

text \<open>
  The loop of the handler over the participants read before it: a participant without a
  user row, or already marked as having paid, is skipped; a user short of coins makes the
  handler return at once, and the loop hands back that user; otherwise the cost is taken,
  a transaction row is written and the participant is marked. Each write is committed
  when it is made: the handler opens no transaction.
\<close>

fun deductEntries :: "db \<Rightarrow> int \<Rightarrow> participant list \<Rightarrow> db \<times> user option" where
  "deductEntries d entryCost [] = (d, None)"
| "deductEntries d entryCost (p # ps) =
     (case findUserByPk d (userId p) of
        None \<Rightarrow> deductEntries d entryCost ps
      | Some u \<Rightarrow>
          if hasPaidEntry p then deductEntries d entryCost ps
          else if coins u < entryCost then (d, Some u)
          else deductEntries (markPaid (creditUser d u (- entryCost) ''game_entry'') p) entryCost ps)"

text \<open>
  The handler. \<open>su\<close> is \<^verbatim>\<open>socket.user\<close>, \<open>rs\<close> the ready sets. An \<open>error\<close> event
  carries its \<^verbatim>\<open>message\<close>. When no room is found and a \<^verbatim>\<open>roomId\<close> was sent, the active
  participants registered under that id are sent the error too. After the loop the room
  row is saved with the fields the handler assigned, \<open>game_started\<close> is broadcast and
  the first round is started by \<^verbatim>\<open>startNewRound\<close>, which the handler is given as its first
  argument: every return before that point is the same whatever it does. Timers are not
  part of the state.
\<close>

definition start_game ::
  "(db \<Rightarrow> room \<Rightarrow> db \<times> event list) \<Rightarrow> db \<Rightarrow> ready_sets \<Rightarrow> user option \<Rightarrow> string option \<Rightarrow> nat option
     \<Rightarrow> (db \<times> ready_sets) \<times> event list" where
  "start_game startNewRound d rs su roomCode roomIdArg =
     (case resolveRoom d roomCode roomIdArg of
        None \<Rightarrow>
          ((d, rs),
           E_error ''room_not_found'' #
             (case roomIdArg of
                None \<Rightarrow> []
              | Some k \<Rightarrow> map (\<lambda>p. E_error ''room_not_found'')
                           (filter (\<lambda>p. userId p \<noteq> 0) (findAllActive d k))))
      | Some rm \<Rightarrow>
          (case su of
             None \<Rightarrow> ((d, rs), [E_error ''not_authenticated''])
           | Some usr \<Rightarrow>
               if id_u usr = 0 then ((d, rs), [E_error ''not_authenticated''])
               else if ownerId rm \<noteq> id_u usr then ((d, rs), [E_error ''only_owner_can_start''])
               else if status rm \<noteq> ''lobby'' \<and> status rm \<noteq> ''waiting'' then
                 ((d, rs), [E_error ''game_already_started''])
               else
                 (let ps = findAllActive d (id_r rm);
                      nonOwnerIds = map userId (filter (\<lambda>p. userId p \<noteq> ownerId rm) ps)
                  in if length ps < 2 then ((d, rs), [E_error ''not_enough_players''])
                     else if nonOwnerIds \<noteq> [] \<and> \<not> areAllReady rs (id_r rm) nonOwnerIds then
                       ((d, rs), [E_error ''not_all_ready''])
                     else
                       (let rs1 = clearRoom rs (id_r rm);
                            orangeCount = length (filter (\<lambda>p. team p = Some ''orange'') ps);
                            blueCount = length (filter (\<lambda>p. team p = Some ''blue'') ps)
                        in if gameMode rm = Some ''team_vs_team'' \<and> (orangeCount < 2 \<or> blueCount < 2)
                           then ((d, rs1), [E_error ''both_teams_need_players''])
                           else
                             (let entryCost = calculateEntryCost (entryPoints rm) (voiceEnabled rm)
                              in case deductEntries d entryCost ps of
                                   (d1, Some short) \<Rightarrow> ((d1, rs1), [E_error ''insufficient_coins''])
                                 | (d1, None) \<Rightarrow>
                                     (let started = (\<lambda>x. x\<lparr>status := ''playing'', currentRound := 1,
                                                          drawnUserIds := [], roundPhase := None,
                                                          currentDrawerId := None, currentWord := None,
                                                          currentWordOptions := None,
                                                          roundPhaseEndTime := None,
                                                          roundRemainingTime := None\<rparr>);
                                          d2 = d1\<lparr>rooms := map (\<lambda>x. if id_r x = id_r rm then started x else x)
                                                              (rooms d1)\<rparr>
                                      in case startNewRound d2 (started rm) of
                                           (d3, evs) \<Rightarrow>
                                             ((d3, rs1), E_game_started entryCost # evs)))))))"

text \<open>
  Two readings of the tables: whether the row with a given primary key is marked as
  having paid, and the participants of a run of the loop that are charged (they have a
  user row and were not marked).
\<close>

definition paidOf :: "db \<Rightarrow> nat \<Rightarrow> bool option" where
  "paidOf d k = map_option hasPaidEntry (find (\<lambda>x. id_p x = k) (participants d))"

definition charged :: "db \<Rightarrow> participant \<Rightarrow> bool" where
  "charged d p \<longleftrightarrow> \<not> hasPaidEntry p \<and> findUserByPk d (userId p) \<noteq> None"

section \<open>One session per user (\<^verbatim>\<open>userSocketMap.js\<close>, \<^verbatim>\<open>socket.js\<close>)\<close>

text \<open>
  The state of the connection layer: the map from user id to socket id of
  \<^verbatim>\<open>userSocketMap.js\<close>; the connected sockets of the default namespace
  (\<^verbatim>\<open>io.sockets.sockets\<close>), each with its \<^verbatim>\<open>socket.userId\<close>; and the sockets the server
  has closed whose \<open>disconnect\<close> handler has not run yet, with their \<^verbatim>\<open>socket.userId\<close>.
  User ids are positive; \<^verbatim>\<open>socket.user?.id\<close> is falsy for a socket without a user and for
  the id 0.
\<close>

record session =
  userSocketMap :: "nat \<rightharpoonup> string"
  sockets :: "string \<rightharpoonup> nat option"
  closing :: "string \<rightharpoonup> nat option"

definition getSocketIdForUser :: "session \<Rightarrow> nat \<Rightarrow> string option" where
  "getSocketIdForUser s u = userSocketMap s u"

definition setSocketForUser :: "session \<Rightarrow> nat \<Rightarrow> string \<Rightarrow> session" where
  "setSocketForUser s u sid = s\<lparr>userSocketMap := (userSocketMap s)(u \<mapsto> sid)\<rparr>"

definition deleteUser :: "session \<Rightarrow> nat \<Rightarrow> session" where
  "deleteUser s u = s\<lparr>userSocketMap := (userSocketMap s)(u := None)\<rparr>"

text \<open>
  The first statement of the \<open>disconnect\<close> handler of socket \<open>sid\<close>, whose
  \<^verbatim>\<open>socket.userId\<close> is \<open>uid\<close>: the entry is deleted only when it still names this socket.
  The rest of the handler works on the room tables and leaves this state alone.
\<close>

definition on_disconnect :: "string \<Rightarrow> nat option \<Rightarrow> session \<Rightarrow> session" where
  "on_disconnect sid uid s =
     (case uid of
        None \<Rightarrow> s
      | Some u \<Rightarrow> if u \<noteq> 0 \<and> getSocketIdForUser s u = Some sid then deleteUser s u else s)"

text \<open>
  \<^verbatim>\<open>oldSocket.disconnect(true)\<close> on the connected socket \<open>p\<close>: the socket leaves the
  namespace and its \<open>disconnect\<close> handler runs, at once (\<open>sync\<close>) or once the transport
  has closed.
\<close>

definition force_disconnect :: "bool \<Rightarrow> string \<Rightarrow> session \<Rightarrow> session" where
  "force_disconnect sync p s =
     (case sockets s p of
        None \<Rightarrow> s
      | Some uid \<Rightarrow>
          (let s1 = s\<lparr>sockets := (sockets s)(p := None)\<rparr>
           in if sync then on_disconnect p uid s1
              else s1\<lparr>closing := (closing s1)(p \<mapsto> uid)\<rparr>))"

text \<open>
  The \<open>connection\<close> handler for the new socket \<open>sid\<close> with \<^verbatim>\<open>socket.user?.id\<close> =
  \<open>usr\<close>: an authenticated connection closes the socket registered for the user, when
  there is one, it is another socket and it is still connected; then it registers itself
  and sets \<^verbatim>\<open>socket.userId\<close>.
\<close>

definition connection :: "bool \<Rightarrow> string \<Rightarrow> nat option \<Rightarrow> session \<Rightarrow> session" where
  "connection sync sid usr s =
     (let s0 = s\<lparr>sockets := (sockets s)(sid \<mapsto> None)\<rparr>
      in case usr of
           None \<Rightarrow> s0
         | Some u \<Rightarrow>
             if u = 0 then s0
             else
               (let s1 = (case getSocketIdForUser s0 u of
                            None \<Rightarrow> s0
                          | Some prevSocketId \<Rightarrow>
                              if prevSocketId \<noteq> [] \<and> prevSocketId \<noteq> sid
                                 \<and> sockets s0 prevSocketId \<noteq> None
                              then force_disconnect sync prevSocketId s0 else s0);
                    s2 = setSocketForUser s1 u sid
                in s2\<lparr>sockets := (sockets s2)(sid \<mapsto> Some u)\<rparr>))"

text \<open>
  The \<open>disconnect\<close> event of socket \<open>sid\<close>, connected or already closed by the
  server: the socket is gone and its handler runs.
\<close>

definition disconnect :: "string \<Rightarrow> session \<Rightarrow> session" where
  "disconnect sid s =
     (case (case sockets s sid of Some uid \<Rightarrow> Some uid | None \<Rightarrow> closing s sid) of
        None \<Rightarrow> s
      | Some uid \<Rightarrow>
          on_disconnect sid uid
            (s\<lparr>sockets := (sockets s)(sid := None), closing := (closing s)(sid := None)\<rparr>))"

text \<open>
  What happens to the server, one event after the other, from the start: a socket
  connects, under a non-empty id that no socket known to the server has (a run that
  breaks this has no result), or the \<open>disconnect\<close> event of a socket fires.
\<close>

datatype conn_event = Connect bool string "nat option" | Disconnect string

definition noSessions :: session where
  "noSessions = \<lparr>userSocketMap = Map.empty, sockets = Map.empty, closing = Map.empty\<rparr>"

fun run_sessions :: "session \<Rightarrow> conn_event list \<Rightarrow> session option" where
  "run_sessions s [] = Some s"
| "run_sessions s (Connect sync sid usr # es) =
     (if sid = [] \<or> sockets s sid \<noteq> None \<or> closing s sid \<noteq> None then None
      else run_sessions (connection sync sid usr s) es)"
| "run_sessions s (Disconnect sid # es) = run_sessions (disconnect sid s) es"

text \<open>
  The invariant of the runs: the socket registered for a user is connected and is that
  user's; a connected socket of a user is the one registered for that user; a socket is
  not both connected and closed; socket ids are not empty.
\<close>

definition registered_live :: "session \<Rightarrow> bool" where
  "registered_live s \<longleftrightarrow>
     (\<forall>u sid. userSocketMap s u = Some sid \<longrightarrow> sockets s sid = Some (Some u))
   \<and> (\<forall>u sid. sockets s sid = Some (Some u) \<longrightarrow> userSocketMap s u = Some sid \<and> u \<noteq> 0)
   \<and> (\<forall>sid. sockets s sid \<noteq> None \<longrightarrow> closing s sid = None)
   \<and> sockets s [] = None"


section \<open>Example states\<close>

text \<open>
  On ASCII text \<^verbatim>\<open>toLowerCase\<close> maps \<open>A\<close>..\<open>Z\<close> to \<open>a\<close>..\<open>z\<close> and changes nothing
  else. The examples, whose words and guesses are ASCII, are run with this function.
\<close>

definition toLowerCaseASCII :: "jstring \<Rightarrow> jstring" where
  "toLowerCaseASCII s = map (\<lambda>c. if 65 \<le> c \<and> c \<le> 90 then c + 32 else c) s"

text \<open>
  Room \<open>ABCDE\<close> in the drawing phase of a free-for-all game: users 1 (owner and
  drawer), 2 and 3, word \<open>tree\<close>, the phase ending at instant 80000.
\<close>

definition exRoom :: room where
  "exRoom = \<lparr>id_r = 1, code = ''ABCDE'', ownerId = 1, gameMode = Some ''1v1'',
     entryPoints = 250, targetPoints = 60, maxPointsPerRound = 20, voiceEnabled = False,
     status = ''playing'', currentWord = Some (utf16 ''tree''), usedWords = [utf16 ''tree''],
     currentWordOptions = None, currentDrawerId = Some 1, lastDrawerId = Some 1,
     currentRound = 1, roundStartTime = Some 0, roundPhase = Some ''drawing'',
     roundPhaseEndTime = Some 80000, roundRemainingTime = Some 80,
     drawerPointerIndex = 1, drawnUserIds = [1]\<rparr>"

definition exParticipant :: "nat \<Rightarrow> string option \<Rightarrow> bool \<Rightarrow> participant" where
  "exParticipant uid t dr = \<lparr>id_p = 10 + uid, roomId = 1, userId = uid, team = t, isDrawer = dr,
     score = 0, points_updated_at = None, hasDrawn = dr, hasGuessedThisRound = False,
     hasPaidEntry = True, eliminationCount = 3, isActive = True, socketId = Some ''sock'',
     skipCount = 0\<rparr>"

definition exUser :: "nat \<Rightarrow> string \<Rightarrow> int \<Rightarrow> user" where
  "exUser uid n c = \<lparr>id_u = uid, name = n, coins = c\<rparr>"

definition exDb :: db where
  "exDb = \<lparr>rooms = [exRoom],
     participants = [exParticipant 1 None True, exParticipant 2 None False, exParticipant 3 None False],
     users = [exUser 1 ''A'' 1000, exUser 2 ''B'' 1000, exUser 3 ''C'' 1000],
     coinTransactions = []\<rparr>"

text \<open>The same room after user 2 guessed the word at instant 30000 for 7 points.\<close>

definition exDbGuessed :: db where
  "exDbGuessed = exDb\<lparr>participants :=
      [exParticipant 1 None True,
       (exParticipant 2 None False)\<lparr>score := 7, points_updated_at := Some 30000, hasGuessedThisRound := True\<rparr>,
       exParticipant 3 None False]\<rparr>"


text \<open>
  Room \<open>TEAMS\<close> in the drawing phase of a team game: users 11 and 12 are blue, 13 and
  14 orange, user 11 draws; and the same room once the round is in its reveal phase.
\<close>

definition exTeamRoom :: room where
  "exTeamRoom = exRoom\<lparr>id_r := 2, code := ''TEAMS'', ownerId := 11,
     gameMode := Some ''team_vs_team'', currentDrawerId := Some 11, lastDrawerId := Some 11,
     drawnUserIds := [11]\<rparr>"

definition exTeamParticipant :: "nat \<Rightarrow> string \<Rightarrow> bool \<Rightarrow> participant" where
  "exTeamParticipant uid t dr = (exParticipant uid (Some t) dr)\<lparr>roomId := 2\<rparr>"

definition exTeamDb :: db where
  "exTeamDb = \<lparr>rooms = [exTeamRoom],
     participants = [exTeamParticipant 11 ''blue'' True, exTeamParticipant 12 ''blue'' False,
                     exTeamParticipant 13 ''orange'' False, exTeamParticipant 14 ''orange'' False],
     users = [exUser 11 ''B0'' 1000, exUser 12 ''B1'' 1000, exUser 13 ''O0'' 1000, exUser 14 ''O1'' 1000],
     coinTransactions = []\<rparr>"

definition exTeamDbReveal :: db where
  "exTeamDbReveal = exTeamDb\<lparr>rooms := [exTeamRoom\<lparr>roundPhase := Some ''reveal''\<rparr>]\<rparr>"

text \<open>
  Room \<open>TEAMS\<close> with the blue guesser's row inactive: user 12 has left the room and
  the row is kept.
\<close>

definition exTeamDbAway :: db where
  "exTeamDbAway = exTeamDb\<lparr>participants :=
      [exTeamParticipant 11 ''blue'' True, (exTeamParticipant 12 ''blue'' False)\<lparr>isActive := False\<rparr>,
       exTeamParticipant 13 ''orange'' False, exTeamParticipant 14 ''orange'' False]\<rparr>"

text \<open>
  Room \<open>ABCDE\<close> with a fourth player, user 4, after user 2 guessed the word for 7
  points: one row marked out of four active ones.
\<close>

definition exDbFour :: db where
  "exDbFour = exDb\<lparr>participants :=
      [exParticipant 1 None True,
       (exParticipant 2 None False)\<lparr>score := 7, points_updated_at := Some 30000, hasGuessedThisRound := True\<rparr>,
       exParticipant 3 None False, exParticipant 4 None False],
     users := [exUser 1 ''A'' 1000, exUser 2 ''B'' 1000, exUser 3 ''C'' 1000, exUser 4 ''D'' 1000]\<rparr>"




text \<open>
  The end of a game in room \<open>ABCDE\<close>: user 1 has 62 points; users 2 and 3 have 30
  each, user 3 having reached them first.
\<close>

definition exDbFinal :: db where
  "exDbFinal = exDb\<lparr>participants :=
      [(exParticipant 1 None True)\<lparr>score := 62, points_updated_at := Some 500000\<rparr>,
       (exParticipant 2 None False)\<lparr>score := 30, points_updated_at := Some 300000\<rparr>,
       (exParticipant 3 None False)\<lparr>score := 30, points_updated_at := Some 200000\<rparr>]\<rparr>"

text \<open>
  Room \<open>LOBBY\<close> before its first game, entry cost 250: users 31 (the owner), 32 and
  33 are in, nobody has paid, users 32 and 33 have tapped Ready, and user 33 has only 100
  coins.
\<close>

definition exLobbyRoom :: room where
  "exLobbyRoom = \<lparr>id_r = 3, code = ''LOBBY'', ownerId = 31, gameMode = Some ''1v1'',
     entryPoints = 250, targetPoints = 60, maxPointsPerRound = 20, voiceEnabled = False,
     status = ''lobby'', currentWord = None, usedWords = [],
     currentWordOptions = None, currentDrawerId = None, lastDrawerId = None,
     currentRound = 0, roundStartTime = None, roundPhase = None,
     roundPhaseEndTime = None, roundRemainingTime = Some 80,
     drawerPointerIndex = 0, drawnUserIds = []\<rparr>"

definition exLobbyParticipant :: "nat \<Rightarrow> participant" where
  "exLobbyParticipant uid = (exParticipant uid None False)\<lparr>roomId := 3, hasPaidEntry := False\<rparr>"

definition exLobbyDb :: db where
  "exLobbyDb = \<lparr>rooms = [exLobbyRoom],
     participants = [exLobbyParticipant 31, exLobbyParticipant 32, exLobbyParticipant 33],
     users = [exUser 31 ''A'' 1000, exUser 32 ''B'' 300, exUser 33 ''C'' 100],
     coinTransactions = []\<rparr>"

definition exReady :: ready_sets where
  "exReady = [3 \<mapsto> {32, 33}]"

text \<open>
  User 7 connected as socket \<open>a\<close> and then again as socket \<open>b\<close>; socket \<open>a\<close> has been
  closed by the server and its \<open>disconnect\<close> event has not fired yet.
\<close>

definition exSessions :: session where
  "exSessions = \<lparr>userSocketMap = [7 \<mapsto> ''b''], sockets = [''b'' \<mapsto> Some 7],
                  closing = [''a'' \<mapsto> Some 7]\<rparr>"


section \<open>The atomic phase transition\<close>


lemma id_r_set_column: "id_r (set_column u r) = id_r r"
  by (cases u) simp_all

lemma id_r_apply_updates: "id_r (apply_updates us r) = id_r r"
  unfolding apply_updates_def
  by (induction us arbitrary: r) (simp_all add: id_r_set_column)

lemma find_map_update_pk:
  assumes "distinct (map id_r rs)" "find (\<lambda>r. id_r r = k) rs = Some r" "P r" "id_r (f r) = k"
  shows "find (\<lambda>r. id_r r = k) (map (\<lambda>x. if id_r x = k \<and> P x then f x else x) rs) = Some (f r)"
  using assms
proof (induction rs)
  case Nil then show ?case by simp
next
  case (Cons a rs)
  show ?case
  proof (cases "id_r a = k")
    case True
    with Cons.prems have "a = r" by simp
    with True Cons.prems show ?thesis by simp
  next
    case False
    with Cons show ?thesis by simp
  qed
qed

lemma map_update_pk_eq:
  assumes "distinct (map id_r rs)" "find (\<lambda>r. id_r r = k) rs = Some r"
  shows "map (\<lambda>x. if id_r x = k \<and> P x then f x else x) rs
       = (if P r then map (\<lambda>x. if id_r x = k then f r else x) rs else rs)"
  using assms
proof (induction rs)
  case Nil then show ?case by simp
next
  case (Cons a rs)
  show ?case
  proof (cases "id_r a = k")
    case True
    with Cons.prems have ar: "a = r" by simp
    from True Cons.prems have "\<forall>x\<in>set rs. id_r x \<noteq> k" by (auto simp: image_iff)
    then have "map (\<lambda>x. if id_r x = k \<and> P x then f x else x) rs = rs"
      and "map (\<lambda>x. if id_r x = k then f r else x) rs = rs"
      by (simp_all add: map_idI)
    with True ar show ?thesis by simp
  next
    case False
    with Cons show ?thesis by simp
  qed
qed

lemma filter_pk_length:
  assumes "distinct (map id_r rs)" "find (\<lambda>r. id_r r = k) rs = Some r"
  shows "length (filter (\<lambda>x. id_r x = k \<and> P x) rs) = (if P r then 1 else 0)"
  using assms
proof (induction rs)
  case Nil then show ?case by simp
next
  case (Cons a rs)
  show ?case
  proof (cases "id_r a = k")
    case True
    with Cons.prems have ar: "a = r" by simp
    from True Cons.prems have "\<forall>x\<in>set rs. id_r x \<noteq> k" by (auto simp: image_iff)
    then have "filter (\<lambda>x. id_r x = k \<and> P x) rs = []" by (simp add: filter_empty_conv)
    with True ar show ?thesis by simp
  next
    case False
    with Cons show ?thesis by simp
  qed
qed

lemma filter_pk_none:
  assumes "find (\<lambda>r. id_r r = k) rs = None"
  shows "filter (\<lambda>x. id_r x = k \<and> P x) rs = []"
  using assms by (induction rs) (auto split: if_splits)

lemma transitionPhase_hit:
  assumes "distinct (map id_r (rooms d))"
      and "findRoomByPk d k = Some r" and "roundPhase r = fromPhase"
  shows "transitionPhase d k fromPhase us =
           (d\<lparr>rooms := map (\<lambda>x. if id_r x = k then apply_updates us r else x) (rooms d)\<rparr>,
            Some (apply_updates us r))"
proof -
  from assms(2) have f: "find (\<lambda>r. id_r r = k) (rooms d) = Some r"
    by (simp add: findRoomByPk_def)
  note p = assms(3)
  have n: "length (filter (\<lambda>x. id_r x = k \<and> roundPhase x = fromPhase) (rooms d)) = 1"
    using filter_pk_length[OF assms(1) f, of "\<lambda>x. roundPhase x = fromPhase"] p by simp
  have m: "map (\<lambda>x. if id_r x = k \<and> roundPhase x = fromPhase then apply_updates us x else x) (rooms d)
         = map (\<lambda>x. if id_r x = k then apply_updates us r else x) (rooms d)"
    using map_update_pk_eq[OF assms(1) f, of "\<lambda>x. roundPhase x = fromPhase" "apply_updates us"] p by simp
  have k: "id_r r = k" using f by (auto dest: find_Some_iff[THEN iffD1])
  have g: "find (\<lambda>r. id_r r = k)
       (map (\<lambda>x. if id_r x = k \<and> roundPhase x = fromPhase then apply_updates us x else x) (rooms d))
       = Some (apply_updates us r)"
    using find_map_update_pk[OF assms(1) f, of "\<lambda>x. roundPhase x = fromPhase" "apply_updates us"] p k
    by (simp add: id_r_apply_updates)
  have "transitionPhase d k fromPhase us =
      (d\<lparr>rooms := map (\<lambda>x. if id_r x = k \<and> roundPhase x = fromPhase then apply_updates us x else x) (rooms d)\<rparr>,
       Some (apply_updates us r))"
    using n g
    by (simp add: transitionPhase_def Room_update_where_phase_def getRoom_def findRoomByPk_def)
  then show ?thesis by (simp only: m)
qed

lemma transitionPhase_miss:
  assumes "distinct (map id_r (rooms d))"
      and "\<nexists>r. findRoomByPk d k = Some r \<and> roundPhase r = fromPhase"
  shows "transitionPhase d k fromPhase us = (d, None)"
proof -
  have "filter (\<lambda>x. id_r x = k \<and> roundPhase x = fromPhase) (rooms d) = []"
  proof (cases "find (\<lambda>r. id_r r = k) (rooms d)")
    case None
    then show ?thesis by (rule filter_pk_none)
  next
    case (Some r)
    with assms(2) have "roundPhase r \<noteq> fromPhase" by (simp add: findRoomByPk_def)
    with filter_pk_length[OF assms(1) Some, of "\<lambda>x. roundPhase x = fromPhase"] show ?thesis by simp
  qed
  then show ?thesis
    by (simp add: transitionPhase_def Room_update_where_phase_def)
qed

text \<open>
  Claim C1. \<^verbatim>\<open>transitionPhase(roomId, fromPhase, updates)\<close> is a compare-and-update:
  when the row with that id exists and its \<open>roundPhase\<close> equals \<open>fromPhase\<close>, the
  updates are applied to that row alone and the updated row is returned; in every other
  case the database is left as it was and the result is \<^verbatim>\<open>null\<close>. Room ids are a
  primary key.
\<close>

theorem transitionPhase_compare_and_update:
  assumes "distinct (map id_r (rooms d))"
  shows "(\<forall>r. findRoomByPk d k = Some r \<and> roundPhase r = fromPhase \<longrightarrow>
            transitionPhase d k fromPhase us =
              (d\<lparr>rooms := map (\<lambda>x. if id_r x = k then apply_updates us r else x) (rooms d)\<rparr>,
               Some (apply_updates us r)))
       \<and> ((\<nexists>r. findRoomByPk d k = Some r \<and> roundPhase r = fromPhase) \<longrightarrow>
            transitionPhase d k fromPhase us = (d, None))"
  using transitionPhase_hit[OF assms] transitionPhase_miss[OF assms] by blast

theorem transitionPhase_compare_and_update_witness:
  "distinct (map id_r (rooms exDb))
   \<and> transitionPhase exDb 1 (Some ''drawing'') [Set_roundPhase (Some ''reveal'')]
       = (exDb\<lparr>rooms := [exRoom\<lparr>roundPhase := Some ''reveal''\<rparr>]\<rparr>,
          Some (exRoom\<lparr>roundPhase := Some ''reveal''\<rparr>))
   \<and> transitionPhase exDb 1 (Some ''reveal'') [Set_roundPhase (Some ''interval'')] = (exDb, None)"
proof -
  have h: "distinct (map id_r (rooms exDb))"
    by (simp add: exDb_def)
  have a: "findRoomByPk exDb 1 = Some exRoom \<and> roundPhase exRoom = Some ''drawing''"
    by (simp add: findRoomByPk_def exDb_def exRoom_def)
  have b: "\<nexists>r. findRoomByPk exDb 1 = Some r \<and> roundPhase r = Some ''reveal''"
    by (simp add: findRoomByPk_def exDb_def exRoom_def)
  from transitionPhase_compare_and_update[OF h, of 1 "Some ''drawing''" "[Set_roundPhase (Some ''reveal'')]"] a
  have "transitionPhase exDb 1 (Some ''drawing'') [Set_roundPhase (Some ''reveal'')]
       = (exDb\<lparr>rooms := map (\<lambda>x. if id_r x = 1 then apply_updates [Set_roundPhase (Some ''reveal'')] exRoom else x) (rooms exDb)\<rparr>,
          Some (apply_updates [Set_roundPhase (Some ''reveal'')] exRoom))"
    by blast
  moreover from transitionPhase_compare_and_update[OF h, of 1 "Some ''reveal''" "[Set_roundPhase (Some ''interval'')]"] b
  have "transitionPhase exDb 1 (Some ''reveal'') [Set_roundPhase (Some ''interval'')] = (exDb, None)"
    by blast
  ultimately show ?thesis using h
    by (simp add: apply_updates_def exDb_def exRoom_def)
qed

section \<open>What the end of a round leaves untouched\<close>



lemma creditUser_frame [simp]:
  "participants (creditUser d u a r) = participants d"
  "rooms (creditUser d u a r) = rooms d"
  by (simp_all add: creditUser_def)

lemma awardPlaces_frame:
  "awardPlaces d e two i ps = (x, y) \<Longrightarrow> participants x = participants d \<and> rooms x = rooms d"
proof (induction ps arbitrary: d i x y two)
  case Nil
  then show ?case by simp
next
  case (Cons p ps)
  from Cons.prems show ?case
    by (auto simp: Let_def split: option.splits prod.splits if_splits dest!: Cons.IH)
qed

lemma awardWinners_frame:
  "awardWinners d won ps = (x, y) \<Longrightarrow> participants x = participants d \<and> rooms x = rooms d"
proof (induction ps arbitrary: d x y)
  case Nil
  then show ?case by simp
next
  case (Cons p ps)
  from Cons.prems show ?case
    by (auto simp: Let_def split: option.splits prod.splits dest!: Cons.IH)
qed

lemma endGame_participants: "participants (fst (endGame d rm)) = participants d"
proof -
  note a = awardPlaces_frame and b = awardWinners_frame
  show ?thesis
    by (auto simp: endGame_def Let_def dest!: a b split: prod.splits list.splits)
qed

lemma endGame_rooms: "rooms (fst (endGame d rm)) = finishRoom (id_r rm) (rooms d)"
proof -
  note a = awardPlaces_frame and b = awardWinners_frame
  show ?thesis
    by (auto simp: endGame_def finishRoom_def Let_def dest!: a b split: prod.splits list.splits)
qed

lemma checkGameEnd_participants: "participants (fst (fst (checkGameEnd d rm))) = participants d"
  by (simp add: checkGameEnd_def endGame_participants split: option.splits)

lemma checkGameEnd_rooms:
  "rooms (fst (fst (checkGameEnd d rm))) = rooms d
   \<or> rooms (fst (fst (checkGameEnd d rm))) = finishRoom (id_r rm) (rooms d)"
  by (simp add: checkGameEnd_def endGame_rooms split: option.splits)

lemma find_Some_pk: "find (\<lambda>r. id_r r = k) rs = Some r \<Longrightarrow> id_r r = k"
  by (auto simp: find_Some_iff)

lemma updateParticipantScore_frame [simp]:
  "rooms (updateParticipantScore d p pts now) = rooms d"
  "users (updateParticipantScore d p pts now) = users d"
  by (simp_all add: updateParticipantScore_def)

lemma endDrawingPhase_miss:
  assumes "distinct (map id_r (rooms d))"
      and "\<nexists>r. findRoomByPk d (id_r rm) = Some r \<and> roundPhase r = Some ''drawing''"
  shows "endDrawingPhase d rm now = (d, [])"
  using transitionPhase_miss[OF assms] by (simp add: endDrawingPhase_def)

lemma endDrawingPhase_hit:
  assumes pk: "distinct (map id_r (rooms d))"
      and r: "findRoomByPk d (id_r rm) = Some r" and ph: "roundPhase r = Some ''drawing''"
  shows "participants (fst (endDrawingPhase d rm now)) =
           (case drawerOf d r of
              Some dr \<Rightarrow> if paysDrawer d r
                         then participants (updateParticipantScore d dr (drawerPointsOf d r) now)
                         else participants d
            | None \<Rightarrow> participants d)
       \<and> (\<forall>x\<in>set (rooms (fst (endDrawingPhase d rm now))).
             id_r x = id_r rm \<longrightarrow> roundPhase x = Some ''reveal'')
       \<and> (\<forall>dr. drawerOf d r = Some dr \<and> paysDrawer d r \<longrightarrow>
             E_score_update (userId dr) (of_int (score dr) + drawerPointsOf d r)
               \<in> set (snd (endDrawingPhase d rm now)))"
proof -
  let ?us = "[Set_roundPhase (Some ''reveal''),
              Set_roundPhaseEndTime (Some (now + PHASE_DURATIONS ''reveal'' * 1000)),
              Set_roundRemainingTime (Some (PHASE_DURATIONS ''reveal''))]"
  let ?r' = "apply_updates ?us r"
  let ?d1 = "d\<lparr>rooms := map (\<lambda>x. if id_r x = id_r rm then ?r' else x) (rooms d)\<rparr>"
  have t: "transitionPhase d (id_r rm) (Some ''drawing'') ?us = (?d1, Some ?r')"
    by (rule transitionPhase_hit[OF pk r ph])
  have idr: "id_r r = id_r rm" using r by (auto simp: findRoomByPk_def dest: find_Some_pk)
  have f: "id_r ?r' = id_r r" "currentDrawerId ?r' = currentDrawerId r" "gameMode ?r' = gameMode r"
     "maxPointsPerRound ?r' = maxPointsPerRound r"
     "roundPhaseEndTime ?r' = Some (now + PHASE_DURATIONS ''reveal'' * 1000)"
    by (simp_all add: apply_updates_def)
  define G where "G \<longleftrightarrow> (\<exists>p\<in>set (participants d). roomId p = id_r r \<and> hasGuessedThisRound p)"
  have g: "(filter (\<lambda>p. roomId p = id_r r \<and> hasGuessedThisRound p) (participants d) \<noteq> []) = G"
    by (auto simp: filter_empty_conv G_def)
  have pays: "paysDrawer d r = (drawerOf d r \<noteq> None \<and> G \<and> gameMode r \<noteq> Some ''team_vs_team'')"
    by (simp add: paysDrawer_def G_def)
  have ck: "\<And>d' r' a b c. checkGameEnd d' r' = ((a, b), c) \<Longrightarrow> participants a = participants d'"
    using checkGameEnd_participants by (metis fst_conv)
  have pd: "participants ?d1 = participants d" by simp
  define pay where "pay = (case drawerOf d r of
                      Some dr \<Rightarrow>
                        if paysDrawer d r
                        then (updateParticipantScore ?d1 dr (drawerPointsOf d r) now,
                              [E_score_update (userId dr) (of_int (score dr) + drawerPointsOf d r)])
                        else (?d1, [])
                    | None \<Rightarrow> (?d1, []))"
  have u: "endDrawingPhase d rm now =
       (case pay of (d2, paid) \<Rightarrow>
          (case checkGameEnd d2 ?r' of
             ((d3, ended), gameEnded) \<Rightarrow>
               (d3, paid @ [E_phase_change ''reveal'' (now + PHASE_DURATIONS ''reveal'' * 1000)
                       (Some (if gameMode r = Some ''team_vs_team'' then 0
                          else if drawerOf d r \<noteq> None \<and> G
                               then drawerPointsOf d r else 0))] @ ended)))"
  proof (cases G)
    case True
    then show ?thesis
      unfolding endDrawingPhase_def t pay_def pays
      by (simp add: Let_def f g drawerOf_def findParticipant_def drawerPointsOf_def
            findAllActive_def split: option.split)
  next
    case False
    then show ?thesis
      unfolding endDrawingPhase_def t pay_def pays
      by (simp add: Let_def f g drawerOf_def findParticipant_def drawerPointsOf_def
            findAllActive_def split: option.split)
  qed
  obtain d2 paid where p2: "pay = (d2, paid)" by force
  obtain d3 ended ge where c3: "checkGameEnd d2 ?r' = ((d3, ended), ge)" by (metis surj_pair)
  have "participants (fst (endDrawingPhase d rm now)) = participants d2"
    using ck[OF c3] by (simp add: u p2 c3)
  moreover have "participants d2 = (case drawerOf d r of
              Some dr \<Rightarrow> if paysDrawer d r
                         then participants (updateParticipantScore d dr (drawerPointsOf d r) now)
                         else participants d
            | None \<Rightarrow> participants d)"
    using p2 unfolding pay_def
    by (auto simp: updateParticipantScore_def split: option.splits if_splits)
  ultimately have A: "participants (fst (endDrawingPhase d rm now)) =
           (case drawerOf d r of
              Some dr \<Rightarrow> if paysDrawer d r
                         then participants (updateParticipantScore d dr (drawerPointsOf d r) now)
                         else participants d
            | None \<Rightarrow> participants d)" by simp
  have r2: "rooms d2 = rooms ?d1"
    using p2 unfolding pay_def by (auto split: option.splits if_splits)
  have "rooms d3 = rooms d2 \<or> rooms d3 = finishRoom (id_r ?r') (rooms d2)"
    using checkGameEnd_rooms[of d2 ?r'] by (simp add: c3)
  moreover have "roundPhase ?r' = Some ''reveal''" by (simp add: apply_updates_def)
  ultimately have "\<forall>x\<in>set (rooms d3). id_r x = id_r rm \<longrightarrow> roundPhase x = Some ''reveal''"
    unfolding r2 by (auto simp: finishRoom_def)
  then have B: "\<forall>x\<in>set (rooms (fst (endDrawingPhase d rm now))).
             id_r x = id_r rm \<longrightarrow> roundPhase x = Some ''reveal''"
    by (simp add: u p2 c3)
  have C: "\<forall>dr. drawerOf d r = Some dr \<and> paysDrawer d r \<longrightarrow>
             E_score_update (userId dr) (of_int (score dr) + drawerPointsOf d r)
               \<in> set (snd (endDrawingPhase d rm now))"
  proof (intro allI impI)
    fix dr assume "drawerOf d r = Some dr \<and> paysDrawer d r"
    then have "paid = [E_score_update (userId dr) (of_int (score dr) + drawerPointsOf d r)]"
      using p2 by (simp add: pay_def)
    then show "E_score_update (userId dr) (of_int (score dr) + drawerPointsOf d r)
                 \<in> set (snd (endDrawingPhase d rm now))"
      by (simp add: u p2 c3)
  qed
  show ?thesis by (intro conjI) (rule A, rule B, rule C)
qed

lemmas endDrawingPhase_participants = endDrawingPhase_hit[THEN conjunct1]


lemmas endDrawingPhase_paid = endDrawingPhase_hit[THEN conjunct2, THEN conjunct2]


subsection \<open>Events of the end of a round\<close>


lemma endGame_events: "e \<in> set (snd (endGame d rm)) \<Longrightarrow> event_name e = ''game_ended''"
  by (auto simp: endGame_def Let_def split: prod.splits list.splits if_splits)

lemma checkGameEnd_events:
  "e \<in> set (snd (fst (checkGameEnd d rm))) \<Longrightarrow> event_name e = ''game_ended''"
  using endGame_events[of e d rm] by (auto simp: checkGameEnd_def split: option.splits)

lemma endDrawingPhase_events:
  assumes "e \<in> set (snd (endDrawingPhase d rm now))"
  shows "event_name e \<in> {''game_ended'', ''score_update'', ''phase_change''}"
proof -
  have ck: "\<And>d' r' a b c. checkGameEnd d' r' = ((a, b), c) \<Longrightarrow> e \<in> set b \<Longrightarrow> event_name e = ''game_ended''"
    using checkGameEnd_events by (metis fst_conv snd_conv)
  from assms show ?thesis
    by (auto simp: endDrawingPhase_def Let_def dest: ck split: prod.splits option.splits if_splits)
qed

lemma storeInteger_of_int: "storeInteger (of_int n) = n"
proof (cases "0 \<le> n")
  case True
  have "\<lfloor>(of_int n :: rat) + 1 / 2\<rfloor> = n" by (simp add: floor_unique)
  with True show ?thesis by (simp add: storeInteger_def)
next
  case False
  have "\<lceil>(of_int n :: rat) - 1 / 2\<rceil> = n" by (simp add: ceiling_unique)
  with False show ?thesis by (simp add: storeInteger_def)
qed

lemma storeInteger_add: "storeInteger (of_int a + of_int b) = a + b"
  using storeInteger_of_int[of "a + b"] by simp

section \<open>The drawer's reward\<close>


lemma find_map_row:
  assumes "find P xs = Some x" and "\<And>y. P (g y) = P y"
  shows "find P (map (\<lambda>y. if id_p y = id_p x then g y else y) xs) = Some (g x)"
  using assms(1)
proof (induction xs)
  case Nil
  then show ?case by simp
next
  case (Cons a xs)
  then show ?case using assms(2) by (cases "P a") auto
qed

lemma storeInteger_near: "\<bar>of_int (storeInteger x) - x\<bar> \<le> 1 / 2"
proof (cases "0 \<le> x")
  case True
  define y where "y = x + 1 / 2"
  have "of_int \<lfloor>y\<rfloor> \<le> y" "y < of_int \<lfloor>y\<rfloor> + 1" by linarith+
  then have "\<bar>of_int \<lfloor>y\<rfloor> - x\<bar> \<le> 1 / 2" unfolding y_def by linarith
  with True show ?thesis by (simp only: storeInteger_def y_def if_True)
next
  case False
  define y where "y = x - 1 / 2"
  have "y \<le> of_int \<lceil>y\<rceil>" "of_int \<lceil>y\<rceil> < y + 1" by linarith+
  then have "\<bar>of_int \<lceil>y\<rceil> - x\<bar> \<le> 1 / 2" unfolding y_def by linarith
  with False show ?thesis by (simp only: storeInteger_def y_def if_False)
qed

text \<open>
  Claim C4, as stated, fails: the score column holds integers, and the drawer's points
  need not be one. In room \<open>ABCDE\<close> with four active players, one of whom has guessed,
  the formula gives \<open>min(20 * 1 / max(1, 4 - 1), 20) = 20 / 3\<close>; the number written
  is \<open>0 + 20 / 3\<close>, the row keeps 7, and the drawer's score has grown by 7.
\<close>

theorem endDrawingPhase_drawer_reward_counterexample:
  "gameMode exRoom \<noteq> Some ''team_vs_team''
   \<and> currentDrawerId exRoom = Some 1
   \<and> length (filter (\<lambda>p. roomId p = id_r exRoom \<and> hasGuessedThisRound p) (participants exDbFour)) = 1
   \<and> length (findAllActive exDbFour (id_r exRoom)) = 4
   \<and> min ((20 * of_nat 1) / of_int (max 1 (int 4 - 1))) (of_int (maxPointsPerRound exRoom)) = (20 / 3 :: rat)
   \<and> map_option score (findParticipant exDbFour 1 1) = Some 0
   \<and> map_option score (findParticipant (fst (endDrawingPhase exDbFour exRoom 80000)) 1 1) = Some 7
   \<and> (of_int (7 - 0) :: rat) \<noteq> 20 / 3"
proof -
  have c1: "gameMode exRoom \<noteq> Some ''team_vs_team''" by code_simp
  have c2: "currentDrawerId exRoom = Some 1" by code_simp
  have c3: "length (filter (\<lambda>p. roomId p = id_r exRoom \<and> hasGuessedThisRound p) (participants exDbFour)) = 1"
    by code_simp
  have c4: "length (findAllActive exDbFour (id_r exRoom)) = 4" by code_simp
  have c5: "min ((20 * of_nat 1) / of_int (max 1 (int 4 - 1))) (of_int (maxPointsPerRound exRoom)) = (20 / 3 :: rat)"
    by code_simp
  have c6: "map_option score (findParticipant exDbFour 1 1) = Some 0" by code_simp
  have c7: "map_option score (findParticipant (fst (endDrawingPhase exDbFour exRoom 80000)) 1 1) = Some 7"
    by code_simp
  have c8: "(of_int (7 - 0) :: rat) \<noteq> 20 / 3" by simp
  show ?thesis
    by (intro conjI) (rule c1, rule c2, rule c3, rule c4, rule c5, rule c6, rule c7, rule c8)
qed

text \<open>
  Claim C4, amended. When \<^verbatim>\<open>endDrawingPhase\<close> wins the transition out of \<open>drawing\<close> and
  at least one row of the room is marked as having guessed (\<open>G > 0\<close>), then outside
  team mode the number \<open>score + pts\<close>, with
  \<open>pts = min(20 G / max(1, N - 1), maxPointsPerRound)\<close> and \<open>N\<close> the number of active
  rows, is broadcast as the drawer's score and written to the drawer's row, and to no
  other row. The row keeps the integer the column stores for it, which is within one
  half of \<open>score + pts\<close>: the drawer's score grows by \<open>pts\<close> when \<open>pts\<close> is
  integral, and by \<open>pts\<close> rounded to the nearest integer otherwise. In team mode no
  participant row changes, so the drawer gets nothing. The quotient is the exact
  rational the JavaScript division approximates.
\<close>

theorem endDrawingPhase_drawer_reward:
  assumes pk: "distinct (map id_r (rooms d))"
      and r: "findRoomByPk d (id_r rm) = Some r"
      and ph: "roundPhase r = Some ''drawing''"
      and dr: "currentDrawerId r = Some u"
              "findParticipant d (id_r r) u = Some drawer"
      and G: "G = length (filter (\<lambda>p. roomId p = id_r r \<and> hasGuessedThisRound p) (participants d))"
             "0 < G"
      and N: "N = length (findAllActive d (id_r r))"
      and pts: "pts = min ((20 * of_nat G) / of_int (max 1 (int N - 1))) (of_int (maxPointsPerRound r))"
      and new: "stored = storeInteger (of_int (score drawer) + pts)"
  shows "(gameMode r \<noteq> Some ''team_vs_team'' \<longrightarrow>
            participants (fst (endDrawingPhase d rm now)) =
              map (\<lambda>x. if id_p x = id_p drawer
                       then x\<lparr>score := stored, points_updated_at := Some now\<rparr>
                       else x) (participants d)
            \<and> findParticipant (fst (endDrawingPhase d rm now)) (id_r r) u
                = Some (drawer\<lparr>score := stored, points_updated_at := Some now\<rparr>)
            \<and> E_score_update u (of_int (score drawer) + pts) \<in> set (snd (endDrawingPhase d rm now))
            \<and> \<bar>of_int (stored - score drawer) - pts\<bar> \<le> 1 / 2
            \<and> (\<forall>k. pts = of_int k \<longrightarrow> stored = score drawer + k))
       \<and> (gameMode r = Some ''team_vs_team'' \<longrightarrow>
            participants (fst (endDrawingPhase d rm now)) = participants d)"
proof -
  have d0: "drawerOf d r = Some drawer" using dr by (simp add: drawerOf_def)
  have p0: "drawerPointsOf d r = pts" using G N pts by (simp add: drawerPointsOf_def)
  have ex: "\<exists>p\<in>set (participants d). roomId p = id_r r \<and> hasGuessedThisRound p"
  proof -
    from G have "filter (\<lambda>p. roomId p = id_r r \<and> hasGuessedThisRound p) (participants d) \<noteq> []"
      by auto
    then show ?thesis by (simp add: filter_empty_conv)
  qed
  have du: "userId drawer = u" using dr(2) by (auto simp: findParticipant_def find_Some_iff)
  note e = endDrawingPhase_participants[OF pk r ph, of now]
  have near: "\<bar>of_int (stored - score drawer) - pts\<bar> \<le> 1 / 2"
    using storeInteger_near[of "of_int (score drawer) + pts"] by (simp add: new algebra_simps)
  have integral: "\<forall>k. pts = of_int k \<longrightarrow> stored = score drawer + k"
    by (simp add: new storeInteger_add)
  show ?thesis
  proof (intro conjI impI)
    assume solo: "gameMode r \<noteq> Some ''team_vs_team''"
    then have pd: "paysDrawer d r" using d0 ex by (simp add: paysDrawer_def)
    with e d0 p0 show t: "participants (fst (endDrawingPhase d rm now)) =
              map (\<lambda>x. if id_p x = id_p drawer
                       then x\<lparr>score := stored, points_updated_at := Some now\<rparr>
                       else x) (participants d)"
      by (simp add: updateParticipantScore_def new)
    show "findParticipant (fst (endDrawingPhase d rm now)) (id_r r) u
                = Some (drawer\<lparr>score := stored, points_updated_at := Some now\<rparr>)"
      unfolding findParticipant_def t
      by (rule find_map_row[OF dr(2)[unfolded findParticipant_def], of "\<lambda>x. x\<lparr>score := stored, points_updated_at := Some now\<rparr>"]) simp
    from endDrawingPhase_paid[OF pk r ph, of now, rule_format, of drawer] d0 pd
    show "E_score_update u (of_int (score drawer) + pts) \<in> set (snd (endDrawingPhase d rm now))"
      by (simp add: du p0)
    show "\<bar>of_int (stored - score drawer) - pts\<bar> \<le> 1 / 2" by (rule near)
    show "\<forall>k. pts = of_int k \<longrightarrow> stored = score drawer + k" by (rule integral)
  next
    assume "gameMode r = Some ''team_vs_team''"
    then have "\<not> paysDrawer d r" by (simp add: paysDrawer_def)
    with e d0 show "participants (fst (endDrawingPhase d rm now)) = participants d" by simp
  qed
qed

theorem endDrawingPhase_drawer_reward_witness:
  "participants (fst (endDrawingPhase exDbGuessed exRoom 80000)) =
     [(exParticipant 1 None True)\<lparr>score := 10, points_updated_at := Some 80000\<rparr>,
      (exParticipant 2 None False)\<lparr>score := 7, points_updated_at := Some 30000, hasGuessedThisRound := True\<rparr>,
      exParticipant 3 None False]
   \<and> E_score_update 1 10 \<in> set (snd (endDrawingPhase exDbGuessed exRoom 80000))"
proof -
  have pk: "distinct (map id_r (rooms exDbGuessed))"
    by (simp add: exDbGuessed_def exDb_def)
  have r: "findRoomByPk exDbGuessed (id_r exRoom) = Some exRoom"
    by (simp add: findRoomByPk_def exDbGuessed_def exDb_def)
  have ph: "roundPhase exRoom = Some ''drawing''" by (simp add: exRoom_def)
  have dr: "currentDrawerId exRoom = Some 1"
    "findParticipant exDbGuessed (id_r exRoom) 1 = Some (exParticipant 1 None True)"
    by (simp_all add: findParticipant_def exRoom_def exDbGuessed_def exDb_def exParticipant_def)
  have G: "1 = length (filter (\<lambda>p. roomId p = id_r exRoom \<and> hasGuessedThisRound p) (participants exDbGuessed))"
     "0 < (1::nat)"
    by (simp_all add: exRoom_def exDbGuessed_def exDb_def exParticipant_def)
  have N: "3 = length (findAllActive exDbGuessed (id_r exRoom))"
    by (simp add: findAllActive_def exRoom_def exDbGuessed_def exDb_def exParticipant_def)
  have pts: "(10::rat) = min ((20 * of_nat 1) / of_int (max 1 (int 3 - 1))) (of_int (maxPointsPerRound exRoom))"
    by (simp add: exRoom_def)
  have new: "(10::int) = storeInteger (of_int (score (exParticipant 1 None True)) + 10)"
    by code_simp
  have solo: "gameMode exRoom \<noteq> Some ''team_vs_team''" by (simp add: exRoom_def)
  note T = endDrawingPhase_drawer_reward[OF pk r ph dr G N pts new, of 80000, THEN conjunct1, rule_format, OF solo]
  have a: "participants (fst (endDrawingPhase exDbGuessed exRoom 80000)) =
     [(exParticipant 1 None True)\<lparr>score := 10, points_updated_at := Some 80000\<rparr>,
      (exParticipant 2 None False)\<lparr>score := 7, points_updated_at := Some 30000, hasGuessedThisRound := True\<rparr>,
      exParticipant 3 None False]"
    using T[THEN conjunct1] by (simp add: exDbGuessed_def exDb_def exParticipant_def)
  have b: "E_score_update 1 10 \<in> set (snd (endDrawingPhase exDbGuessed exRoom 80000))"
    using T[THEN conjunct2, THEN conjunct2, THEN conjunct1] by (simp add: exParticipant_def)
  from a b show ?thesis by (rule conjI)
qed


section \<open>Guesses\<close>



lemma submit_guess_gates:
  obtains (rejected) m where
      "submit_guess lc d su rc ri g t1 t2 = (d, [E_guess_result False m])"
  | (processed) rm w u p where
      "admitted d su rc ri rm w u p"
      "submit_guess lc d su rc ri g t1 t2 = processGuess lc d rm w u p g t1 t2"
proof (cases "resolveRoom d rc ri")
  case None
  then show ?thesis using rejected by (simp add: submit_guess_def)
next
  case (Some rm)
  note rm = this
  show ?thesis
  proof (cases "roundPhase rm = Some ''drawing''")
    case False
    then show ?thesis using rejected rm by (simp add: submit_guess_def)
  next
    case ph: True
    show ?thesis
    proof (cases "currentWord rm")
      case None
      then show ?thesis using rejected rm ph by (simp add: submit_guess_def)
    next
      case (Some w)
      note w = this
      show ?thesis
      proof (cases "w = []")
        case True
        then show ?thesis using rejected rm ph w by (simp add: submit_guess_def)
      next
        case wne: False
        show ?thesis
        proof (cases su)
          case None
          then show ?thesis using rejected rm ph w wne by (simp add: submit_guess_def)
        next
          case (Some u)
          note u = this
          show ?thesis
          proof (cases "id_u u = 0")
            case True
            then show ?thesis using rejected rm ph w wne u by (simp add: submit_guess_def)
          next
            case une: False
            show ?thesis
            proof (cases "findParticipant d (id_r rm) (id_u u)")
              case None
              then show ?thesis using rejected rm ph w wne u une by (simp add: submit_guess_def)
            next
              case (Some p)
              note p = this
              show ?thesis
              proof (cases "isDrawer p \<or> hasGuessedThisRound p
                            \<or> (gameMode rm = Some ''team_vs_team'' \<and> wrongTeam d rm p)")
                case True
                then have "\<exists>m. submit_guess lc d su rc ri g t1 t2 = (d, [E_guess_result False m])"
                  using rm ph w wne u une p by (auto simp add: submit_guess_def)
                then show ?thesis using rejected by blast
              next
                case False
                then have "submit_guess lc d su rc ri g t1 t2 = processGuess lc d rm w u p g t1 t2"
                  using rm ph w wne u une p by (auto simp add: submit_guess_def)
                moreover have "admitted d su rc ri rm w u p"
                  using rm ph w wne u une p False by (simp add: admitted_def)
                ultimately show ?thesis using processed by blast
              qed
            qed
          qed
        qed
      qed
    qed
  qed
qed



lemma submit_guess_admitted:
  assumes "admitted d su rc ri rm w u p"
  shows "submit_guess lc d su rc ri g t1 t2 = processGuess lc d rm w u p g t1 t2"
  using assms by (auto simp: admitted_def submit_guess_def)





text \<open>
  Claim C6, as stated, fails: the team gate is the sixth gate, and a guess that an
  earlier gate stops is answered with that gate's message. In the reveal phase a guess
  from the orange team, the drawer being blue, is answered \<open>not_drawing_phase\<close>.
\<close>

theorem submit_guess_wrong_team_counterexample:
  "resolveRoom exTeamDbReveal (Some ''TEAMS'') None = Some (exTeamRoom\<lparr>roundPhase := Some ''reveal''\<rparr>)
   \<and> gameMode (exTeamRoom\<lparr>roundPhase := Some ''reveal''\<rparr>) = Some ''team_vs_team''
   \<and> findParticipant exTeamDbReveal 2 13 = Some (exTeamParticipant 13 ''orange'' False)
   \<and> wrongTeam exTeamDbReveal (exTeamRoom\<lparr>roundPhase := Some ''reveal''\<rparr>) (exTeamParticipant 13 ''orange'' False)
   \<and> submit_guess toLowerCaseASCII exTeamDbReveal (Some (exUser 13 ''O0'' 1000)) (Some ''TEAMS'') None (utf16 ''tree'') 81000 81000
       = (exTeamDbReveal, [E_guess_result False ''not_drawing_phase''])
   \<and> E_guess_result False ''not_drawing_phase'' \<noteq> E_guess_result False ''wrong_team''"
  by (simp add: submit_guess_def resolveRoom_def getRoomByCode_def wrongTeam_def findParticipant_def
        exTeamDbReveal_def exTeamDb_def exTeamRoom_def exRoom_def exTeamParticipant_def
        exParticipant_def exUser_def)

text \<open>
  Claim C6, amended. In team mode a \<^verbatim>\<open>submit_guess\<close> from a participant who is not on
  the current drawer's team (or when the drawer has no row) is always rejected with a
  single \<open>guess_result\<close> and changes nothing in the database: no score, no mark, no
  phase. The message is \<open>wrong_team\<close> whenever the guess reaches the team gate, that
  is, when the room is in the drawing phase with a word set, the socket is authenticated
  and the guesser is neither the drawer nor already marked.
\<close>

theorem submit_guess_wrong_team:
  assumes rm: "resolveRoom d rc ri = Some rm"
      and tm: "gameMode rm = Some ''team_vs_team''"
      and u: "su = Some u"
      and p: "findParticipant d (id_r rm) (id_u u) = Some p"
      and wt: "wrongTeam d rm p"
  shows "fst (submit_guess lc d su rc ri g t1 t2) = d
       \<and> (\<exists>m. snd (submit_guess lc d su rc ri g t1 t2) = [E_guess_result False m])
       \<and> (roundPhase rm = Some ''drawing'' \<and> currentWord rm \<noteq> None \<and> currentWord rm \<noteq> Some []
            \<and> id_u u \<noteq> 0 \<and> \<not> isDrawer p \<and> \<not> hasGuessedThisRound p
          \<longrightarrow> snd (submit_guess lc d su rc ri g t1 t2) = [E_guess_result False ''wrong_team''])"
proof -
  have a: "fst (submit_guess lc d su rc ri g t1 t2) = d
       \<and> (\<exists>m. snd (submit_guess lc d su rc ri g t1 t2) = [E_guess_result False m])"
  proof (cases rule: submit_guess_gates[of lc d su rc ri g t1 t2])
    case (rejected m)
    then show ?thesis by simp
  next
    case (processed rm' w u' p')
    then have False using rm tm u p wt by (auto simp: admitted_def)
    then show ?thesis ..
  qed
  have b: "snd (submit_guess lc d su rc ri g t1 t2) = [E_guess_result False ''wrong_team'']"
    if "roundPhase rm = Some ''drawing'' \<and> currentWord rm \<noteq> None \<and> currentWord rm \<noteq> Some []
            \<and> id_u u \<noteq> 0 \<and> \<not> isDrawer p \<and> \<not> hasGuessedThisRound p"
    using that rm tm u p wt by (auto simp: submit_guess_def)
  from a b show ?thesis by blast
qed

theorem submit_guess_wrong_team_witness:
  "submit_guess toLowerCaseASCII exTeamDb (Some (exUser 13 ''O0'' 1000)) (Some ''TEAMS'') None (utf16 ''tree'') 20000 20000
     = (exTeamDb, [E_guess_result False ''wrong_team''])"
proof -
  have rm: "resolveRoom exTeamDb (Some ''TEAMS'') None = Some exTeamRoom"
    by (simp add: resolveRoom_def getRoomByCode_def exTeamDb_def exTeamRoom_def exRoom_def)
  have tm: "gameMode exTeamRoom = Some ''team_vs_team''"
    by (simp add: exTeamRoom_def)
  have p: "findParticipant exTeamDb (id_r exTeamRoom) (id_u (exUser 13 ''O0'' 1000))
             = Some (exTeamParticipant 13 ''orange'' False)"
    by (simp add: findParticipant_def exTeamDb_def exTeamRoom_def exTeamParticipant_def
          exParticipant_def exUser_def)
  have wt: "wrongTeam exTeamDb exTeamRoom (exTeamParticipant 13 ''orange'' False)"
    by (simp add: wrongTeam_def findParticipant_def exTeamDb_def exTeamRoom_def exTeamParticipant_def
          exParticipant_def exRoom_def)
  have g: "roundPhase exTeamRoom = Some ''drawing'' \<and> currentWord exTeamRoom \<noteq> None
           \<and> currentWord exTeamRoom \<noteq> Some [] \<and> id_u (exUser 13 ''O0'' 1000) \<noteq> 0
           \<and> \<not> isDrawer (exTeamParticipant 13 ''orange'' False)
           \<and> \<not> hasGuessedThisRound (exTeamParticipant 13 ''orange'' False)"
    by (simp add: exTeamRoom_def exRoom_def exUser_def exTeamParticipant_def exParticipant_def utf16_def)
  note T = submit_guess_wrong_team[OF rm tm refl p wt, of toLowerCaseASCII "utf16 ''tree''" 20000 20000]
  from T have f: "fst (submit_guess toLowerCaseASCII exTeamDb (Some (exUser 13 ''O0'' 1000)) (Some ''TEAMS'') None (utf16 ''tree'') 20000 20000) = exTeamDb"
    by (rule conjunct1)
  from T g have s: "snd (submit_guess toLowerCaseASCII exTeamDb (Some (exUser 13 ''O0'' 1000)) (Some ''TEAMS'') None (utf16 ''tree'') 20000 20000)
       = [E_guess_result False ''wrong_team'']"
    by blast
  from f s show ?thesis by (simp add: prod_eq_iff)
qed



section \<open>The reward of a correct guess\<close>


lemma correctGuess_solo_score:
  assumes "gameMode rm \<noteq> Some ''team_vs_team''"
  shows "E_score_update (userId p) (of_int (score p)
             + of_int (calculateGuessReward (remainingAt rm t2) (maxPointsPerRound rm)))
           \<in> set (snd (correctGuess d rm u p t2))"
  using assms by (simp add: correctGuess_def Let_def split: option.splits prod.splits)


lemma resolveRoom_in_rooms:
  "resolveRoom d rc ri = Some rm \<Longrightarrow> rm \<in> set (rooms d)"
  by (auto simp: resolveRoom_def Let_def getRoomByCode_def findRoomByPk_def find_Some_iff in_set_conv_nth
           split: option.splits if_splits)

lemma findRoomByPk_member:
  assumes "distinct (map id_r (rooms d))" and "rm \<in> set (rooms d)"
  shows "findRoomByPk d (id_r rm) = Some rm"
proof -
  have "find (\<lambda>r. id_r r = id_r rm) rs = Some rm" if "distinct (map id_r rs)" "rm \<in> set rs" for rs
    using that by (induction rs) (auto simp: image_iff)
  with assms show ?thesis by (simp add: findRoomByPk_def)
qed

lemma find_map_pres:
  assumes "\<And>y. P (f y) = P y"
  shows "find P (map f xs) = map_option f (find P xs)"
  using assms by (induction xs) auto

lemma findParticipant_in:
  "findParticipant d rid uid = Some p \<Longrightarrow> p \<in> set (participants d) \<and> roomId p = rid \<and> userId p = uid"
  by (auto simp: findParticipant_def find_Some_iff)

lemma endDrawingPhase_participants_cases:
  assumes pk: "distinct (map id_r (rooms d))"
  shows "participants (fst (endDrawingPhase d rm now)) = participants d
       \<or> (\<exists>r dr. findRoomByPk d (id_r rm) = Some r \<and> drawerOf d r = Some dr \<and> paysDrawer d r
             \<and> participants (fst (endDrawingPhase d rm now))
                 = participants (updateParticipantScore d dr (drawerPointsOf d r) now))"
proof (cases "\<exists>r. findRoomByPk d (id_r rm) = Some r \<and> roundPhase r = Some ''drawing''")
  case False
  then show ?thesis using endDrawingPhase_miss[OF pk, of rm now] by simp
next
  case True
  then obtain r where r: "findRoomByPk d (id_r rm) = Some r" "roundPhase r = Some ''drawing''" by blast
  show ?thesis
    using endDrawingPhase_participants[OF pk r, of now] r(1)
    by (auto split: option.splits if_splits)
qed

lemma correctGuess_events:
  assumes "E_correct_guess uid pts rem \<in> set (snd (correctGuess d rm u p t2))"
  shows "uid = id_u u \<and> rem = remainingAt rm t2
         \<and> pts = calculateGuessReward (remainingAt rm t2) (maxPointsPerRound rm)"
proof -
  have ed: "\<And>d' r' a b. endDrawingPhase d' r' t2 = (a, b) \<Longrightarrow> E_correct_guess uid pts rem \<notin> set b"
  proof
    fix d' r' a b assume h: "endDrawingPhase d' r' t2 = (a, b)" "E_correct_guess uid pts rem \<in> set b"
    then have "E_correct_guess uid pts rem \<in> set (snd (endDrawingPhase d' r' t2))" by simp
    from endDrawingPhase_events[OF this] show False by simp
  qed
  from assms show ?thesis
    by (auto simp: correctGuess_def Let_def dest: ed split: if_splits prod.splits option.splits)
qed



lemma submit_guess_correct_branch:
  assumes ev: "E_correct_guess uid pts rem \<in> set (snd (submit_guess lc d su rc ri g t1 t2))"
  obtains rm w u p where "admitted d su rc ri rm w u p"
      "lc (trim g) = lc (trim w)" "\<not> roundEnded rm t1"
      "submit_guess lc d su rc ri g t1 t2 = correctGuess d rm u p t2"
proof (cases rule: submit_guess_gates[of lc d su rc ri g t1 t2])
  case (rejected m)
  with ev show ?thesis by simp
next
  case (processed rm w u p)
  from ev processed(2) have e: "E_correct_guess uid pts rem \<in> set (snd (processGuess lc d rm w u p g t1 t2))"
    by simp
  then have c: "lc (trim g) = lc (trim w)" "\<not> roundEnded rm t1"
    by (auto simp: processGuess_def Let_def split: if_splits)
  then have "processGuess lc d rm w u p g t1 t2 = correctGuess d rm u p t2"
    by (simp add: processGuess_def)
  with processed c that show ?thesis by simp
qed

lemma submit_guess_correct:
  assumes "admitted d su rc ri rm w u p" "lc (trim g) = lc (trim w)" "\<not> roundEnded rm t1"
  shows "submit_guess lc d su rc ri g t1 t2 = correctGuess d rm u p t2"
  using submit_guess_admitted[OF assms(1), of lc g t1 t2] assms(2,3) by (simp add: processGuess_def)

lemma correctGuess_solo:
  assumes pk: "distinct (map id_r (rooms d))" "distinct (map id_p (participants d))"
      and rm: "rm \<in> set (rooms d)"
      and solo: "gameMode rm \<noteq> Some ''team_vs_team''"
      and p: "findParticipant d (id_r rm) uid = Some p"
      and nd: "currentDrawerId rm \<noteq> Some uid"
  shows "findParticipant (fst (correctGuess d rm u p t2)) (id_r rm) uid
           = Some (p\<lparr>score := score p + (calculateGuessReward (remainingAt rm t2) (maxPointsPerRound rm)),
                     points_updated_at := Some t2, hasGuessedThisRound := True\<rparr>)"
proof -
  define reward where "reward = calculateGuessReward (remainingAt rm t2) (maxPointsPerRound rm)"
  define award :: "participant \<Rightarrow> participant" where "award = (\<lambda>x. if id_p x = id_p p
       then x\<lparr>score := score p + reward, points_updated_at := Some t2, hasGuessedThisRound := True\<rparr>
       else x)"
  define d1 where "d1 = d\<lparr>participants := map award (participants d)\<rparr>"
  have d1: "(let d' = updateParticipantScore d p (of_int reward) t2
             in d'\<lparr>participants := map (\<lambda>x. if id_p x = id_p p then x\<lparr>hasGuessedThisRound := True\<rparr> else x)
                                 (participants d')\<rparr>) = d1"
    by (simp add: d1_def award_def updateParticipantScore_def Let_def comp_def storeInteger_add cong: if_cong)
  have pk1: "distinct (map id_r (rooms d1))" using pk by (simp add: d1_def)
  have pres: "\<And>y. (roomId (award y) = id_r rm \<and> userId (award y) = uid) = (roomId y = id_r rm \<and> userId y = uid)"
    by (simp add: award_def)
  have pin: "p \<in> set (participants d)" "roomId p = id_r rm" "userId p = uid"
    using findParticipant_in[OF p] by simp_all
  have f1: "findParticipant d1 (id_r rm) uid = Some (award p)"
    using p find_map_pres[of "\<lambda>y. roomId y = id_r rm \<and> userId y = uid" award "participants d", OF pres]
    by (simp add: findParticipant_def d1_def)
  have ap: "award p = p\<lparr>score := score p + reward, points_updated_at := Some t2, hasGuessedThisRound := True\<rparr>"
    by (simp add: award_def)
  have fr: "findRoomByPk d1 (id_r rm) = Some rm"
    using findRoomByPk_member[OF pk(1) rm] by (simp add: findRoomByPk_def d1_def)
  have stay: "findParticipant (fst (endDrawingPhase d1 rm' t2)) (id_r rm) uid = Some (award p)"
    if idr: "id_r rm' = id_r rm" for rm'
  proof -
    from endDrawingPhase_participants_cases[OF pk1, of rm' t2]
    consider (same) "participants (fst (endDrawingPhase d1 rm' t2)) = participants d1"
      | (paid) r dr where "findRoomByPk d1 (id_r rm') = Some r" "drawerOf d1 r = Some dr"
          "participants (fst (endDrawingPhase d1 rm' t2))
             = participants (updateParticipantScore d1 dr (drawerPointsOf d1 r) t2)"
      by blast
    then show ?thesis
    proof cases
      case same
      then show ?thesis using f1 by (simp add: findParticipant_def)
    next
      case (paid r dr)
      from paid(1) fr idr have rr: "r = rm" by simp
      from paid(2) rr obtain k where k: "currentDrawerId rm = Some k" "findParticipant d1 (id_r rm) k = Some dr"
        by (auto simp: drawerOf_def split: option.splits)
      from findParticipant_in[OF k(2)] have drin: "dr \<in> set (participants d1)" "userId dr = k" by simp_all
      from k(1) nd have "k \<noteq> uid" by auto
      with drin have "dr \<noteq> award p" using pin(3) by (auto simp: award_def)
      from drin(1) obtain y where y: "y \<in> set (participants d)" "dr = award y"
        by (auto simp: d1_def)
      have "id_p dr \<noteq> id_p p"
      proof
        assume "id_p dr = id_p p"
        with y have "id_p y = id_p p" by (simp add: award_def split: if_splits)
        with pk(2) y(1) pin(1) have "y = p" by (auto simp: distinct_map inj_on_def)
        with y(2) \<open>dr \<noteq> award p\<close> show False by simp
      qed
      then have inert: "(if id_p (award p) = id_p dr then (award p)\<lparr>score := storeInteger (of_int (score dr) + drawerPointsOf d1 r), points_updated_at := Some t2\<rparr> else award p) = award p"
        by (auto simp: award_def)
      have "find (\<lambda>y. roomId y = id_r rm \<and> userId y = uid)
              (map (\<lambda>x. if id_p x = id_p dr then x\<lparr>score := storeInteger (of_int (score dr) + drawerPointsOf d1 r), points_updated_at := Some t2\<rparr> else x)
                   (participants d1))
            = map_option (\<lambda>x. if id_p x = id_p dr then x\<lparr>score := storeInteger (of_int (score dr) + drawerPointsOf d1 r), points_updated_at := Some t2\<rparr> else x)
                 (find (\<lambda>y. roomId y = id_r rm \<and> userId y = uid) (participants d1))"
        by (rule find_map_pres) simp
      with f1 inert show ?thesis
        by (simp add: findParticipant_def paid(3) updateParticipantScore_def)
    qed
  qed
  have idfr: "\<And>fr. findRoomByPk d1 (id_r rm) = Some fr \<Longrightarrow> id_r fr = id_r rm"
    using fr by simp
  have "findParticipant (fst (correctGuess d rm u p t2)) (id_r rm) uid = Some (award p)"
    using solo f1 stay[of rm] fr
    unfolding correctGuess_def reward_def[symmetric] Let_def
    apply (simp only: d1[unfolded Let_def] if_False solo fr option.case)
    apply (auto simp: split: prod.splits if_splits)
    done
  then show ?thesis by (simp add: ap reward_def)
qed



lemma teamAward_skip:
  "list_ex hasGuessedThisRound (filter (inTeam rid t) (participants d)) \<Longrightarrow> teamAward d rid t reward now = d"
  by (simp add: teamAward_def)

lemma teamAward_award:
  "\<not> list_ex hasGuessedThisRound (filter (inTeam rid t) (participants d)) \<Longrightarrow>
     teamAward d rid t reward now = d\<lparr>participants := map (awardRow rid t reward now) (participants d)\<rparr>"
  by (simp add: teamAward_def awardRow_def[abs_def])

lemma teamAward_rooms [simp]: "rooms (teamAward d rid t reward now) = rooms d"
  by (simp add: teamAward_def Let_def)

lemma correctGuess_team:
  assumes pk: "distinct (map id_r (rooms d))"
      and rm: "rm \<in> set (rooms d)"
      and tm: "gameMode rm = Some ''team_vs_team''"
  shows "participants (fst (correctGuess d rm u p t2))
           = participants (teamAward d (id_r rm) (team p)
                (calculateGuessReward (remainingAt rm t2) (maxPointsPerRound rm)) t2)"
proof -
  define d1 where "d1 = teamAward d (id_r rm) (team p)
                (calculateGuessReward (remainingAt rm t2) (maxPointsPerRound rm)) t2"
  have pk1: "distinct (map id_r (rooms d1))" using pk by (simp add: d1_def)
  have fr: "findRoomByPk d1 (id_r rm) = Some rm"
    using findRoomByPk_member[OF pk rm] by (simp add: findRoomByPk_def d1_def)
  have np: "\<not> paysDrawer d1 rm" using tm by (simp add: paysDrawer_def)
  have "participants (fst (endDrawingPhase d1 rm t2)) = participants d1"
    using endDrawingPhase_participants_cases[OF pk1, of rm t2] fr np by auto
  moreover have "fst (correctGuess d rm u p t2) = fst (endDrawingPhase d1 rm t2)"
    using tm by (simp add: correctGuess_def Let_def d1_def split: prod.splits)
  ultimately show ?thesis by (simp add: d1_def)
qed



text \<open>
  Claim C3, as stated, fails: the points of an accepted correct guess need not be
  awarded to the guesser. In team mode the transaction pays the active rows of the
  guesser's team only. In room \<open>TEAMS\<close> user 12, whose row is inactive, guesses the
  word with 60 seconds left: \<open>correct_guess\<close> announces 8 points by user 12, the
  drawer's row (user 11, the only active blue row) gets them, and the score of user 12
  stays 0.
\<close>

theorem correct_guess_reward_counterexample:
  "snd (submit_guess toLowerCaseASCII exTeamDbAway (Some (exUser 12 ''B1'' 1000)) (Some ''TEAMS'') None
          (utf16 ''tree'') 20000 20000)
     = [E_score_update 11 8, E_correct_guess 12 8 60, E_phase_change ''reveal'' 27000 (Some 0),
        E_room_participants [11, 13, 14]]
   \<and> map_option score (findParticipant exTeamDbAway 2 12) = Some 0
   \<and> map_option score (findParticipant
        (fst (submit_guess toLowerCaseASCII exTeamDbAway (Some (exUser 12 ''B1'' 1000)) (Some ''TEAMS'') None
                (utf16 ''tree'') 20000 20000)) 2 12) = Some 0
   \<and> min \<lceil>(of_int (max 0 \<lceil>(of_int (80000 - 20000) :: rat) / 1000\<rceil>) :: rat) / 8\<rceil>
          (maxPointsPerRound exTeamRoom) = 8"
proof -
  have a: "admitted exTeamDbAway (Some (exUser 12 ''B1'' 1000)) (Some ''TEAMS'') None exTeamRoom
             (utf16 ''tree'') (exUser 12 ''B1'' 1000) ((exTeamParticipant 12 ''blue'' False)\<lparr>isActive := False\<rparr>)"
    by code_simp
  have n: "toLowerCaseASCII (trim (utf16 ''tree'')) = toLowerCaseASCII (trim (utf16 ''tree''))" ..
  have e: "\<not> roundEnded exTeamRoom 20000" by code_simp
  have sg: "submit_guess toLowerCaseASCII exTeamDbAway (Some (exUser 12 ''B1'' 1000)) (Some ''TEAMS'') None
               (utf16 ''tree'') 20000 20000
            = correctGuess exTeamDbAway exTeamRoom (exUser 12 ''B1'' 1000)
                ((exTeamParticipant 12 ''blue'' False)\<lparr>isActive := False\<rparr>) 20000"
    by (rule submit_guess_correct[where lc=toLowerCaseASCII, OF a n e])
  have c1: "snd (correctGuess exTeamDbAway exTeamRoom (exUser 12 ''B1'' 1000)
                ((exTeamParticipant 12 ''blue'' False)\<lparr>isActive := False\<rparr>) 20000)
     = [E_score_update 11 8, E_correct_guess 12 8 60, E_phase_change ''reveal'' 27000 (Some 0),
        E_room_participants [11, 13, 14]]"
    by code_simp
  have c2: "map_option score (findParticipant exTeamDbAway 2 12) = Some 0" by code_simp
  have c3: "map_option score (findParticipant
        (fst (correctGuess exTeamDbAway exTeamRoom (exUser 12 ''B1'' 1000)
                ((exTeamParticipant 12 ''blue'' False)\<lparr>isActive := False\<rparr>) 20000)) 2 12) = Some 0"
    by code_simp
  have c4: "min \<lceil>(of_int (max 0 \<lceil>(of_int (80000 - 20000) :: rat) / 1000\<rceil>) :: rat) / 8\<rceil>
          (maxPointsPerRound exTeamRoom) = 8"
    by code_simp
  show ?thesis
    unfolding sg by (intro conjI) (rule c1, rule c2, rule c3, rule c4)
qed

text \<open>
  Claim C3, amended. Every \<^verbatim>\<open>submit_guess\<close> that is accepted as correct (it broadcasts
  \<open>correct_guess\<close>) happens in the drawing phase of a room whose phase end time \<open>e\<close>
  is set and not yet passed at the check, and the points it announces are
  \<open>min(\<lceil>rem / 8\<rceil>, maxPointsPerRound)\<close> with \<open>rem = max(0, \<lceil>(e - t2) / 1000\<rceil>)\<close>,
  \<open>t2\<close> being the clock when the reward is computed. In a free-for-all room the
  score broadcast for the guesser is the old score plus these points, and the guesser's
  row gains them (the guesser not being the room's current drawer, whose row the end of
  the round writes again). In a team room the guesser's row gains them exactly when it
  is active and no active row of the team is marked already; otherwise the guesser's row
  is left as it was. The clock is after the epoch; room and participant ids are primary
  keys.
\<close>

theorem correct_guess_reward:
  assumes ev: "E_correct_guess uid pts rem \<in> set (snd (submit_guess lc d su rc ri g t1 t2))"
      and clock: "0 < t1"
      and pk: "distinct (map id_r (rooms d))" "distinct (map id_p (participants d))"
  shows "\<exists>rm e p.
           resolveRoom d rc ri = Some rm \<and> roundPhase rm = Some ''drawing''
         \<and> roundPhaseEndTime rm = Some e \<and> t1 \<le> e
         \<and> findParticipant d (id_r rm) uid = Some p
         \<and> rem = max 0 \<lceil>(of_int (e - t2) :: rat) / 1000\<rceil>
         \<and> pts = min \<lceil>(of_int rem :: rat) / 8\<rceil> (maxPointsPerRound rm)
         \<and> (gameMode rm \<noteq> Some ''team_vs_team'' \<longrightarrow>
              E_score_update uid (of_int (score p) + of_int pts)
                \<in> set (snd (submit_guess lc d su rc ri g t1 t2)))
         \<and> (gameMode rm \<noteq> Some ''team_vs_team'' \<and> currentDrawerId rm \<noteq> Some uid \<longrightarrow>
              findParticipant (fst (submit_guess lc d su rc ri g t1 t2)) (id_r rm) uid
                = Some (p\<lparr>score := score p + pts, points_updated_at := Some t2,
                          hasGuessedThisRound := True\<rparr>))
         \<and> (gameMode rm = Some ''team_vs_team'' \<longrightarrow>
              findParticipant (fst (submit_guess lc d su rc ri g t1 t2)) (id_r rm) uid
                = Some (if isActive p
                           \<and> \<not> list_ex hasGuessedThisRound
                                 (filter (inTeam (id_r rm) (team p)) (participants d))
                        then p\<lparr>score := score p + pts, points_updated_at := Some t2,
                               hasGuessedThisRound := True\<rparr>
                        else p))"
proof -
  from ev obtain rm w u p where a: "admitted d su rc ri rm w u p"
      and ne: "\<not> roundEnded rm t1"
      and sg: "submit_guess lc d su rc ri g t1 t2 = correctGuess d rm u p t2"
    by (rule submit_guess_correct_branch)
  from ev sg have "E_correct_guess uid pts rem \<in> set (snd (correctGuess d rm u p t2))" by simp
  from correctGuess_events[OF this]
  have uid: "uid = id_u u" and rem: "rem = remainingAt rm t2"
    and pts: "pts = calculateGuessReward (remainingAt rm t2) (maxPointsPerRound rm)" by simp_all
  from a have rs: "resolveRoom d rc ri = Some rm" and ph: "roundPhase rm = Some ''drawing''"
    and p: "findParticipant d (id_r rm) uid = Some p"
    by (simp_all add: admitted_def uid)
  from ne clock obtain e where e: "roundPhaseEndTime rm = Some e" "t1 \<le> e"
    by (cases "roundPhaseEndTime rm") (auto simp: roundEnded_def)
  have rem': "rem = max 0 \<lceil>(of_int (e - t2) :: rat) / 1000\<rceil>"
    using rem e by (simp add: remainingAt_def)
  have pts': "pts = min \<lceil>(of_int rem :: rat) / 8\<rceil> (maxPointsPerRound rm)"
    using pts rem by (simp add: calculateGuessReward_def)
  have rmin: "rm \<in> set (rooms d)" using rs by (rule resolveRoom_in_rooms)
  have pin: "roomId p = id_r rm" "userId p = uid" using findParticipant_in[OF p] by simp_all
  have shown: "E_score_update uid (of_int (score p) + of_int pts)
                \<in> set (snd (submit_guess lc d su rc ri g t1 t2))"
    if "gameMode rm \<noteq> Some ''team_vs_team''"
    using that pin(2) correctGuess_solo_score[where rm=rm and p=p and d=d and u=u and ?t2.0=t2] by (simp add: sg pts)
  have solo: "findParticipant (fst (submit_guess lc d su rc ri g t1 t2)) (id_r rm) uid
                = Some (p\<lparr>score := score p + pts, points_updated_at := Some t2,
                          hasGuessedThisRound := True\<rparr>)"
    if "gameMode rm \<noteq> Some ''team_vs_team'' \<and> currentDrawerId rm \<noteq> Some uid"
    using correctGuess_solo[OF pk rmin _ p, of u t2] that by (simp add: sg pts)
  have team: "findParticipant (fst (submit_guess lc d su rc ri g t1 t2)) (id_r rm) uid
                = Some (if isActive p
                           \<and> \<not> list_ex hasGuessedThisRound
                                 (filter (inTeam (id_r rm) (team p)) (participants d))
                        then p\<lparr>score := score p + pts, points_updated_at := Some t2,
                               hasGuessedThisRound := True\<rparr>
                        else p)"
    if tm: "gameMode rm = Some ''team_vs_team''"
  proof (cases "list_ex hasGuessedThisRound (filter (inTeam (id_r rm) (team p)) (participants d))")
    case True
    have "participants (fst (submit_guess lc d su rc ri g t1 t2)) = participants d"
      using correctGuess_team[OF pk(1) rmin tm, of u p t2] teamAward_skip[OF True, of pts t2]
      by (simp add: sg pts)
    with p True show ?thesis by (simp add: findParticipant_def)
  next
    case False
    have "participants (fst (submit_guess lc d su rc ri g t1 t2))
            = map (awardRow (id_r rm) (team p) pts t2) (participants d)"
      using correctGuess_team[OF pk(1) rmin tm, of u p t2] teamAward_award[OF False, of pts t2]
      by (simp add: sg pts)
    moreover have "find (\<lambda>y. roomId y = id_r rm \<and> userId y = uid)
                     (map (awardRow (id_r rm) (team p) pts t2) (participants d))
                 = map_option (awardRow (id_r rm) (team p) pts t2)
                     (find (\<lambda>y. roomId y = id_r rm \<and> userId y = uid) (participants d))"
      by (rule find_map_pres) (simp add: awardRow_def)
    moreover have "awardRow (id_r rm) (team p) pts t2 p
                 = (if isActive p
                    then p\<lparr>score := score p + pts, points_updated_at := Some t2, hasGuessedThisRound := True\<rparr>
                    else p)"
      using pin by (simp add: awardRow_def inTeam_def)
    ultimately show ?thesis using p False by (simp add: findParticipant_def)
  qed
  show ?thesis
    by (intro exI[of _ rm] exI[of _ e] exI[of _ p] conjI impI)
       (rule rs, rule ph, rule e(1), rule e(2), rule p, rule rem', rule pts',
        erule shown, erule solo, erule team)
qed

theorem correct_guess_reward_witness:
  "E_correct_guess 2 7 50 \<in> set (snd (submit_guess toLowerCaseASCII exDb (Some (exUser 2 ''B'' 1000)) (Some ''ABCDE'') None (utf16 '' Tree '') 29500 30000))
   \<and> (7::int) = min \<lceil>(of_int 50 :: rat) / 8\<rceil> (maxPointsPerRound exRoom)
   \<and> (50::int) = max 0 \<lceil>(of_int (80000 - 30000) :: rat) / 1000\<rceil>
   \<and> E_score_update 2 7 \<in> set (snd (submit_guess toLowerCaseASCII exDb (Some (exUser 2 ''B'' 1000)) (Some ''ABCDE'') None (utf16 '' Tree '') 29500 30000))
   \<and> findParticipant (fst (submit_guess toLowerCaseASCII exDb (Some (exUser 2 ''B'' 1000)) (Some ''ABCDE'') None (utf16 '' Tree '') 29500 30000)) 1 2
       = Some ((exParticipant 2 None False)\<lparr>score := 7, points_updated_at := Some 30000, hasGuessedThisRound := True\<rparr>)"
proof -
  have a: "admitted exDb (Some (exUser 2 ''B'' 1000)) (Some ''ABCDE'') None exRoom
             (utf16 ''tree'') (exUser 2 ''B'' 1000) (exParticipant 2 None False)"
    by code_simp
  have n: "toLowerCaseASCII (trim (utf16 '' Tree '')) = toLowerCaseASCII (trim (utf16 ''tree''))"
    by (simp add: toLowerCaseASCII_def trim_def isWhiteSpace_def utf16_def)
  have ne: "\<not> roundEnded exRoom 29500" by code_simp
  have cg: "E_correct_guess 2 7 50 \<in> set (snd (correctGuess exDb exRoom (exUser 2 ''B'' 1000) (exParticipant 2 None False) 30000))"
    by code_simp
  have ev: "E_correct_guess 2 7 50 \<in> set (snd (submit_guess toLowerCaseASCII exDb (Some (exUser 2 ''B'' 1000)) (Some ''ABCDE'') None (utf16 '' Tree '') 29500 30000))"
    unfolding submit_guess_correct[where lc=toLowerCaseASCII, OF a n ne] by (rule cg)
  have clock: "0 < (29500::int)" by simp
  have pk: "distinct (map id_r (rooms exDb))" "distinct (map id_p (participants exDb))"
    by (simp_all add: exDb_def exParticipant_def)
  from correct_guess_reward[OF ev clock pk]
  obtain rm e p where hh: "resolveRoom exDb (Some ''ABCDE'') None = Some rm \<and> roundPhase rm = Some ''drawing''
         \<and> roundPhaseEndTime rm = Some e \<and> 29500 \<le> e
         \<and> findParticipant exDb (id_r rm) 2 = Some p
         \<and> 50 = max 0 \<lceil>(of_int (e - 30000) :: rat) / 1000\<rceil>
         \<and> 7 = min \<lceil>(of_int 50 :: rat) / 8\<rceil> (maxPointsPerRound rm)
         \<and> (gameMode rm \<noteq> Some ''team_vs_team'' \<longrightarrow>
              E_score_update 2 (of_int (score p) + of_int 7)
                \<in> set (snd (submit_guess toLowerCaseASCII exDb (Some (exUser 2 ''B'' 1000)) (Some ''ABCDE'') None (utf16 '' Tree '') 29500 30000)))
         \<and> (gameMode rm \<noteq> Some ''team_vs_team'' \<and> currentDrawerId rm \<noteq> Some 2 \<longrightarrow>
              findParticipant (fst (submit_guess toLowerCaseASCII exDb (Some (exUser 2 ''B'' 1000)) (Some ''ABCDE'') None (utf16 '' Tree '') 29500 30000)) (id_r rm) 2
                = Some (p\<lparr>score := score p + 7, points_updated_at := Some 30000,
                          hasGuessedThisRound := True\<rparr>))
         \<and> (gameMode rm = Some ''team_vs_team'' \<longrightarrow>
              findParticipant (fst (submit_guess toLowerCaseASCII exDb (Some (exUser 2 ''B'' 1000)) (Some ''ABCDE'') None (utf16 '' Tree '') 29500 30000)) (id_r rm) 2
                = Some (if isActive p
                           \<and> \<not> list_ex hasGuessedThisRound
                                 (filter (inTeam (id_r rm) (team p)) (participants exDb))
                        then p\<lparr>score := score p + 7, points_updated_at := Some 30000,
                               hasGuessedThisRound := True\<rparr>
                        else p))"
    by (elim exE)
  note h = hh[THEN conjunct1] hh[THEN conjunct2, THEN conjunct2, THEN conjunct1]
     hh[THEN conjunct2, THEN conjunct2, THEN conjunct2, THEN conjunct2, THEN conjunct1]
     hh[THEN conjunct2, THEN conjunct2, THEN conjunct2, THEN conjunct2, THEN conjunct2, THEN conjunct2, THEN conjunct2, THEN conjunct1]
     hh[THEN conjunct2, THEN conjunct2, THEN conjunct2, THEN conjunct2, THEN conjunct2, THEN conjunct2, THEN conjunct2, THEN conjunct2, THEN conjunct1]
  have "resolveRoom exDb (Some ''ABCDE'') None = Some exRoom" by code_simp
  with h(1) have rm: "rm = exRoom" by simp
  have "findParticipant exDb (id_r exRoom) 2 = Some (exParticipant 2 None False)" by code_simp
  with h(3) rm have p: "p = exParticipant 2 None False" by simp
  have g: "gameMode exRoom \<noteq> Some ''team_vs_team''" "currentDrawerId exRoom \<noteq> Some 2"
    by (simp_all add: exRoom_def)
  from h(4) rm p g(1) have s: "E_score_update 2 7 \<in> set (snd (submit_guess toLowerCaseASCII exDb (Some (exUser 2 ''B'' 1000)) (Some ''ABCDE'') None (utf16 '' Tree '') 29500 30000))"
    by (simp add: exParticipant_def)
  from h(5) rm p g have "findParticipant (fst (submit_guess toLowerCaseASCII exDb (Some (exUser 2 ''B'' 1000)) (Some ''ABCDE'') None (utf16 '' Tree '') 29500 30000)) (id_r exRoom) 2
                = Some ((exParticipant 2 None False)\<lparr>score := score (exParticipant 2 None False) + 7,
                     points_updated_at := Some 30000, hasGuessedThisRound := True\<rparr>)"
    by simp
  then have f: "findParticipant (fst (submit_guess toLowerCaseASCII exDb (Some (exUser 2 ''B'' 1000)) (Some ''ABCDE'') None (utf16 '' Tree '') 29500 30000)) 1 2
       = Some ((exParticipant 2 None False)\<lparr>score := 7, points_updated_at := Some 30000, hasGuessedThisRound := True\<rparr>)"
    by (simp add: exRoom_def exParticipant_def)
  have a1: "(7::int) = min \<lceil>(of_int 50 :: rat) / 8\<rceil> (maxPointsPerRound exRoom)"
    by code_simp
  have a2: "(50::int) = max 0 \<lceil>(of_int (80000 - 30000) :: rat) / 1000\<rceil>"
    by code_simp
  show ?thesis
    by (intro conjI) (rule ev, rule a1, rule a2, rule s, rule f)
qed


section \<open>One award per team and round\<close>


lemma awardRow_inTeam [simp]: "inTeam rid t (awardRow rid' t' r n x) = inTeam rid t x"
  by (simp add: awardRow_def inTeam_def)













section \<open>Ranking and coins at the end of a game\<close>


lemma findUserByPk_creditUser:
  "findUserByPk (creditUser d u a r) k
     = map_option (\<lambda>x. if id_u x = id_u u then x\<lparr>coins := coins u + a\<rparr> else x) (findUserByPk d k)"
  unfolding findUserByPk_def creditUser_def
  by (simp add: find_map_pres[of "\<lambda>x. id_u x = k"])

lemma findUserByPk_creditUser_None [simp]:
  "findUserByPk (creditUser d u a r) k = None \<longleftrightarrow> findUserByPk d k = None"
  by (simp add: findUserByPk_creditUser)

lemma awardPlaces_Cons:
  "findUserByPk d (userId p) = Some u \<Longrightarrow>
     awardPlaces d e two i (p # ps) =
       (case awardPlaces (if prize e two i > 0
                          then creditUser d u (prize e two i) (''game_reward_place_'' @ placeDigit (i + 1))
                          else d) e two (Suc i) ps of
          (d2, rest) \<Rightarrow>
            (d2, \<lparr>place = i + 1, rk_userId = userId p, rk_name = displayName d p,
                   rk_score = score p, coinsAwarded = prize e two i, rk_team = None\<rparr> # rest))"
  by (simp add: prize_def Let_def)

lemma awardPlaces_rankings:
  assumes "\<forall>p\<in>set ps. findUserByPk d (userId p) \<noteq> None"
  shows "map place (snd (awardPlaces d e two i ps)) = map Suc [i..<i + length ps]
       \<and> map rk_userId (snd (awardPlaces d e two i ps)) = map userId ps
       \<and> map rk_score (snd (awardPlaces d e two i ps)) = map score ps
       \<and> map coinsAwarded (snd (awardPlaces d e two i ps)) = map (prize e two) [i..<i + length ps]"
  using assms
proof (induction ps arbitrary: d i)
  case Nil
  then show ?case by simp
next
  case (Cons p ps)
  from Cons.prems obtain u where u: "findUserByPk d (userId p) = Some u" by auto
  define d1 where "d1 = (if prize e two i > 0
                        then creditUser d u (prize e two i) (''game_reward_place_'' @ placeDigit (i + 1))
                        else d)"
  have ex: "\<forall>q\<in>set ps. findUserByPk d1 (userId q) \<noteq> None"
    using Cons.prems by (auto simp: d1_def findUserByPk_creditUser)
  obtain d2 rest where r: "awardPlaces d1 e two (Suc i) ps = (d2, rest)" by force
  have step: "snd (awardPlaces d e two i (p # ps))
        = \<lparr>place = i + 1, rk_userId = userId p, rk_name = displayName d p,
            rk_score = score p, coinsAwarded = prize e two i, rk_team = None\<rparr> # rest"
    unfolding awardPlaces_Cons[OF u] d1_def[symmetric] r by simp
  have up: "[i..<i + length (p # ps)] = i # [Suc i..<Suc i + length ps]"
    by (simp add: upt_rec)
  from Cons.IH[OF ex, of "Suc i"] r show ?case
    unfolding step up by simp
qed

lemma remainingPlaces_rankings:
  "map place (remainingPlaces d i ps) = map Suc [i..<i + length ps]
   \<and> map rk_userId (remainingPlaces d i ps) = map userId ps
   \<and> map rk_score (remainingPlaces d i ps) = map score ps
   \<and> map coinsAwarded (remainingPlaces d i ps) = replicate (length ps) 0"
proof (induction ps arbitrary: i)
  case Nil
  then show ?case by simp
next
  case (Cons p ps)
  have up: "[i..<i + length (p # ps)] = i # [Suc i..<Suc i + length ps]"
    by (simp add: upt_rec)
  from Cons[of "Suc i"] show ?case unfolding up by simp
qed

lemma places_split: "map Suc [0..<0 + length (take 3 xs)] @ map Suc [3..<3 + length (drop 3 xs)] = [1..<length xs + 1]"
proof (cases "length xs \<le> 3")
  case True
  then show ?thesis by (simp add: map_Suc_upt)
next
  case False
  then have "[0..<length xs] = [0..<3] @ [3..<length xs]"
    by (metis le_add2 le_add_same_cancel2 less_imp_le_nat not_le_imp_less upt_add_eq_append le_Suc_ex)
  with False show ?thesis by (simp add: map_Suc_upt[symmetric] min_def del: upt_Suc)
qed



lemma findUserByPk_id: "findUserByPk d k = Some u \<Longrightarrow> id_u u = k"
  by (auto simp: findUserByPk_def find_Some_iff)

lemma coinsOf_creditUser:
  assumes "findUserByPk d j = Some u"
  shows "coinsOf (creditUser d u a r) k = (if k = j then Some (coins u + a) else coinsOf d k)"
proof -
  have j: "id_u u = j" using assms by (rule findUserByPk_id)
  show ?thesis
  proof (cases "findUserByPk d k")
    case None
    with assms show ?thesis by (auto simp: coinsOf_def findUserByPk_creditUser)
  next
    case (Some x)
    then have "id_u x = k" by (rule findUserByPk_id)
    with Some assms j show ?thesis by (auto simp: coinsOf_def findUserByPk_creditUser)
  qed
qed

lemma awardPlaces_coins_other:
  "k \<notin> userId ` set ps \<Longrightarrow> coinsOf (fst (awardPlaces d e two i ps)) k = coinsOf d k"
proof (induction ps arbitrary: d i)
  case Nil
  then show ?case by simp
next
  case (Cons p ps)
  from Cons.prems have kp: "k \<noteq> userId p" and kr: "k \<notin> userId ` set ps" by auto
  show ?case
  proof (cases "findUserByPk d (userId p)")
    case None
    then show ?thesis using Cons.IH[OF kr] by simp
  next
    case (Some u)
    define d1 where "d1 = (if prize e two i > 0
                          then creditUser d u (prize e two i) (''game_reward_place_'' @ placeDigit (i + 1))
                          else d)"
    have "coinsOf d1 k = coinsOf d k" using kp by (simp add: d1_def coinsOf_creditUser[OF Some])
    moreover have "coinsOf (fst (awardPlaces d e two i (p # ps))) k = coinsOf (fst (awardPlaces d1 e two (Suc i) ps)) k"
      unfolding awardPlaces_Cons[OF Some] d1_def[symmetric] by (simp split: prod.splits)
    ultimately show ?thesis using Cons.IH[OF kr, of d1 "Suc i"] by simp
  qed
qed

lemma awardPlaces_coins_at:
  assumes "distinct (map userId ps)" "j < length ps"
  shows "coinsOf (fst (awardPlaces d e two i ps)) (userId (ps ! j))
           = map_option (\<lambda>c. c + max 0 (prize e two (i + j))) (coinsOf d (userId (ps ! j)))"
  using assms
proof (induction ps arbitrary: d i j)
  case Nil
  then show ?case by simp
next
  case (Cons p ps)
  from Cons.prems have np: "userId p \<notin> userId ` set ps" and dr: "distinct (map userId ps)" by auto
  show ?case
  proof (cases "findUserByPk d (userId p)")
    case None
    show ?thesis
    proof (cases j)
      case 0
      have "coinsOf d (userId p) = None" using None by (simp add: coinsOf_def)
      with 0 None awardPlaces_coins_other[OF np, of d e two "Suc i"] show ?thesis
        by simp
    next
      case (Suc j')
      with Cons.prems have "j' < length ps" by simp
      from Cons.IH[OF dr this, of d "Suc i"] None Suc show ?thesis by simp
    qed
  next
    case (Some u)
    define d1 where "d1 = (if prize e two i > 0
                          then creditUser d u (prize e two i) (''game_reward_place_'' @ placeDigit (i + 1))
                          else d)"
    have st: "\<And>k. coinsOf (fst (awardPlaces d e two i (p # ps))) k = coinsOf (fst (awardPlaces d1 e two (Suc i) ps)) k"
      unfolding awardPlaces_Cons[OF Some] d1_def[symmetric] by (simp split: prod.splits)
    have c1: "\<And>k. coinsOf d1 k = (if k = userId p then Some (coins u + max 0 (prize e two i)) else coinsOf d k)"
    proof (cases "prize e two i > 0")
      case True
      then show "\<And>k. coinsOf d1 k = (if k = userId p then Some (coins u + max 0 (prize e two i)) else coinsOf d k)"
        by (simp add: d1_def coinsOf_creditUser[OF Some])
    next
      case False
      moreover have "coinsOf d (userId p) = Some (coins u)" using Some by (simp add: coinsOf_def)
      ultimately show "\<And>k. coinsOf d1 k = (if k = userId p then Some (coins u + max 0 (prize e two i)) else coinsOf d k)"
        by (simp add: d1_def)
    qed
    show ?thesis
    proof (cases j)
      case 0
      have "coinsOf d (userId p) = Some (coins u)" using Some by (simp add: coinsOf_def)
      with 0 awardPlaces_coins_other[OF np, of d1 e two "Suc i"] show ?thesis
        by (simp add: st c1 del: awardPlaces.simps)
    next
      case (Suc j')
      with Cons.prems have jl: "j' < length ps" by simp
      then have "userId (ps ! j') \<noteq> userId p" using np by (metis image_eqI nth_mem)
      with Cons.IH[OF dr jl, of d1 "Suc i"] Suc show ?thesis
        by (simp add: st c1 del: awardPlaces.simps)
    qed
  qed
qed


lemma sortFinal_ordered:
  assumes "i < j" "j < length (sortFinal ps)"
  shows "score (sortFinal ps ! j) < score (sortFinal ps ! i)
       \<or> (score (sortFinal ps ! j) = score (sortFinal ps ! i)
           \<and> timeOf (sortFinal ps ! i) \<le> timeOf (sortFinal ps ! j))"
proof -
  let ?k = "\<lambda>p. (- score p, timeOf p)"
  have "sorted (map ?k (sortFinal ps))" unfolding sortFinal_def by (rule sorted_sort_key)
  with assms have "map ?k (sortFinal ps) ! i \<le> map ?k (sortFinal ps) ! j"
    by (simp add: sorted_iff_nth_mono del: nth_map)
  with assms have "?k (sortFinal ps ! i) \<le> ?k (sortFinal ps ! j)" by simp
  then show ?thesis by (auto simp: less_eq_prod_def)
qed

lemma sortFinal_mset: "mset (sortFinal (findAllActiveOrdered d rid)) = mset (findAllActive d rid)"
  by (simp add: sortFinal_def findAllActiveOrdered_def)

text \<open>
  Claim C8. At the end of a free-for-all game the active rows are ranked by score,
  highest first, an earlier \<open>points_updated_at\<close> breaking ties (a row without a
  stamp counting as stamped at 0); the ranking is a
  permutation of the active participants and its places are \<open>1, 2, ..., N\<close>, each
  once. With exactly two players the coins are \<open>2 entry\<close> and \<open>0\<close>; with three or more
  they are \<open>3 entry\<close>, \<open>2 entry\<close>, \<open>entry\<close> and \<open>0\<close> for everybody else. Each
  player's balance grows by the coins of their place (nothing is booked for a prize that
  is not positive). Every ranked participant has a user row.
\<close>

theorem endGame_solo_ranking:
  assumes solo: "gameMode rm \<noteq> Some ''team_vs_team''"
      and ux: "\<forall>p\<in>set (findAllActive d (id_r rm)). findUserByPk d (userId p) \<noteq> None"
  shows "let ranked = sortFinal (findAllActiveOrdered d (id_r rm)); N = length ranked; e = entryPoints rm
         in mset ranked = mset (findAllActive d (id_r rm))
          \<and> (\<forall>i j. i < j \<and> j < N \<longrightarrow>
                 score (ranked ! j) < score (ranked ! i)
               \<or> (score (ranked ! j) = score (ranked ! i)
                   \<and> (case points_updated_at (ranked ! i) of None \<Rightarrow> 0 | Some t \<Rightarrow> t)
                       \<le> (case points_updated_at (ranked ! j) of None \<Rightarrow> 0 | Some t \<Rightarrow> t)))
          \<and> (\<exists>rks mode. snd (endGame d rm) = [E_game_ended rks e mode]
                \<and> map place rks = [1..<N + 1]
                \<and> map rk_userId rks = map userId ranked
                \<and> map rk_score rks = map score ranked
                \<and> (N = 2 \<longrightarrow> map coinsAwarded rks = [2 * e, 0])
                \<and> (3 \<le> N \<longrightarrow> map coinsAwarded rks = [3 * e, 2 * e, e] @ replicate (N - 3) 0)
                \<and> (distinct (map userId ranked) \<longrightarrow>
                     (\<forall>i<N. coinsOf (fst (endGame d rm)) (userId (ranked ! i))
                              = map_option (\<lambda>c. c + max 0 (coinsAwarded (rks ! i)))
                                  (coinsOf d (userId (ranked ! i))))))"
proof -
  define d0 where "d0 = d\<lparr>rooms := map (\<lambda>x. if id_r x = id_r rm then x\<lparr>status := ''finished''\<rparr> else x) (rooms d)\<rparr>"
  define ranked where "ranked = sortFinal (findAllActiveOrdered d (id_r rm))"
  define mode where "mode = (case gameMode rm of None \<Rightarrow> ''1v1'' | Some g \<Rightarrow> if g = [] then ''1v1'' else g)"
  define e where "e = entryPoints rm"
  define two where "two \<longleftrightarrow> length ranked = 2"
  have nm: "mode \<noteq> ''team_vs_team''" using solo by (auto simp: mode_def split: option.splits)
  have fa: "findAllActiveOrdered d0 (id_r rm) = findAllActiveOrdered d (id_r rm)"
    by (simp add: findAllActiveOrdered_def findAllActive_def d0_def)
  have fu: "\<And>k. findUserByPk d0 k = findUserByPk d k" by (simp add: findUserByPk_def d0_def)
  have ms: "mset ranked = mset (findAllActive d (id_r rm))" unfolding ranked_def by (rule sortFinal_mset)
  then have "set ranked = set (findAllActive d (id_r rm))" by (metis set_mset_mset)
  with ux have ux3: "\<forall>p\<in>set (take 3 ranked). findUserByPk d0 (userId p) \<noteq> None"
    by (auto simp: fu dest: in_set_takeD)
  obtain d1 top3 where ap: "awardPlaces d0 e two 0 (take 3 ranked) = (d1, top3)" by force
  define rks where "rks = top3 @ remainingPlaces d0 3 (drop 3 ranked)"
  have ev: "snd (endGame d rm) = [E_game_ended rks e mode]"
    using nm ap
    unfolding endGame_def Let_def d0_def[symmetric] fa ranked_def[symmetric] mode_def[symmetric]
      calculateEntryCost_def e_def[symmetric] two_def[symmetric] rks_def
    by simp
  note A = awardPlaces_rankings[OF ux3, of e two 0, unfolded ap snd_conv]
  note R = remainingPlaces_rankings[of d0 3 "drop 3 ranked"]
  have pl: "map place rks = [1..<length ranked + 1]"
    using A R places_split[of ranked] by (simp add: rks_def)
  have us: "map rk_userId rks = map userId ranked"
  proof -
    have "map rk_userId rks = map userId (take 3 ranked) @ map userId (drop 3 ranked)"
      using A R by (simp add: rks_def)
    also have "\<dots> = map userId ranked"
      by (simp only: map_append[symmetric] append_take_drop_id)
    finally show ?thesis .
  qed
  have sc: "map rk_score rks = map score ranked"
  proof -
    have "map rk_score rks = map score (take 3 ranked) @ map score (drop 3 ranked)"
      using A R by (simp add: rks_def)
    also have "\<dots> = map score ranked"
      by (simp only: map_append[symmetric] append_take_drop_id)
    finally show ?thesis .
  qed
  have c2: "map coinsAwarded rks = [2 * e, 0]" if "length ranked = 2"
  proof -
    from that have tk: "take 3 ranked = ranked" "drop 3 ranked = []" by simp_all
    have "[0..<0 + length ranked] = [0, 1]" using that by (simp add: upt_rec)
    with A R that show ?thesis by (simp add: rks_def tk two_def prize_def)
  qed
  have c3: "map coinsAwarded rks = [3 * e, 2 * e, e] @ replicate (length ranked - 3) 0" if "3 \<le> length ranked"
  proof -
    from that have l: "length (take 3 ranked) = 3" by simp
    have "[0..<0 + 3] = [0, 1, 2::nat]" by (simp add: upt_rec)
    moreover from that have "\<not> two" by (simp add: two_def)
    ultimately show ?thesis using A R l
      by (simp add: rks_def prize_def rewards_def)
  qed
  have fe: "fst (endGame d rm) = d1"
    using nm ap
    unfolding endGame_def Let_def d0_def[symmetric] fa ranked_def[symmetric] mode_def[symmetric]
      calculateEntryCost_def e_def[symmetric] two_def[symmetric]
    by simp
  have c0: "\<And>k. coinsOf d0 k = coinsOf d k" by (simp add: coinsOf_def fu)
  have lt: "length top3 = length (take 3 ranked)"
    using A by (metis length_map)
  have wl: "\<forall>i<length ranked. coinsOf (fst (endGame d rm)) (userId (ranked ! i))
                              = map_option (\<lambda>c. c + max 0 (coinsAwarded (rks ! i)))
                                  (coinsOf d (userId (ranked ! i)))"
    if dist: "distinct (map userId ranked)"
  proof (intro allI impI)
    fix i assume i: "i < length ranked"
    have d3: "distinct (map userId (take 3 ranked))"
      using dist by (simp add: take_map[symmetric])
    show "coinsOf (fst (endGame d rm)) (userId (ranked ! i))
            = map_option (\<lambda>c. c + max 0 (coinsAwarded (rks ! i))) (coinsOf d (userId (ranked ! i)))"
    proof (cases "i < 3")
      case True
      with i have it: "i < length (take 3 ranked)" by simp
      then have ri: "take 3 ranked ! i = ranked ! i" by simp
      from it lt have "rks ! i = top3 ! i" by (simp add: rks_def nth_append)
      moreover have "coinsAwarded (top3 ! i) = map coinsAwarded top3 ! i"
        using it lt by simp
      moreover have "map coinsAwarded top3 ! i = prize e two i"
        using A it by simp
      ultimately have ca: "coinsAwarded (rks ! i) = prize e two i" by simp
      from awardPlaces_coins_at[OF d3 it, of d0 e two 0]
      show ?thesis by (simp add: ap fe ri ca c0)
    next
      case False
      with i have i3: "3 \<le> i" "i - 3 < length (drop 3 ranked)" by simp_all
      have l3: "length (take 3 ranked) = 3" using i i3(1) by simp
      have "ranked ! i \<notin> set (take 3 ranked)"
      proof
        assume "ranked ! i \<in> set (take 3 ranked)"
        then obtain j where j: "j < 3" "j < length ranked" "ranked ! j = ranked ! i"
          by (auto simp: in_set_conv_nth)
        with dist i have "j = i"
          by (metis distinct_conv_nth length_map nth_map)
        with j(1) i3(1) show False by simp
      qed
      have nk: "userId (ranked ! i) \<notin> userId ` set (take 3 ranked)"
      proof
        assume "userId (ranked ! i) \<in> userId ` set (take 3 ranked)"
        then obtain j where j: "j < 3" "j < length ranked" "userId (ranked ! j) = userId (ranked ! i)"
          by (auto simp: in_set_conv_nth)
        with dist i have "j = i"
          by (metis distinct_conv_nth length_map nth_map)
        with j(1) i3(1) show False by simp
      qed
      have "rks ! i = remainingPlaces d0 3 (drop 3 ranked) ! (i - 3)"
        using i3 lt l3 by (simp add: rks_def nth_append)
      moreover have "length (remainingPlaces d0 3 (drop 3 ranked)) = length (drop 3 ranked)"
        using R by (metis length_map)
      moreover have "map coinsAwarded (remainingPlaces d0 3 (drop 3 ranked)) ! (i - 3) = 0"
        using R i3 by simp
      ultimately have ca: "coinsAwarded (rks ! i) = 0" using i3 by simp
      from awardPlaces_coins_other[OF nk, of d0 e two 0]
      show ?thesis by (simp add: ap fe ca c0 option.map_ident)
    qed
  qed
  have ord: "\<forall>i j. i < j \<and> j < length ranked \<longrightarrow>
                 score (ranked ! j) < score (ranked ! i)
               \<or> (score (ranked ! j) = score (ranked ! i)
                   \<and> (case points_updated_at (ranked ! i) of None \<Rightarrow> 0 | Some t \<Rightarrow> t)
                       \<le> (case points_updated_at (ranked ! j) of None \<Rightarrow> 0 | Some t \<Rightarrow> t))"
    unfolding ranked_def using sortFinal_ordered[of _ _ "findAllActiveOrdered d (id_r rm)"]
    by (simp add: timeOf_def)
  have ex: "\<exists>rks mode. snd (endGame d rm) = [E_game_ended rks e mode]
                \<and> map place rks = [1..<length ranked + 1]
                \<and> map rk_userId rks = map userId ranked
                \<and> map rk_score rks = map score ranked
                \<and> (length ranked = 2 \<longrightarrow> map coinsAwarded rks = [2 * e, 0])
                \<and> (3 \<le> length ranked \<longrightarrow> map coinsAwarded rks = [3 * e, 2 * e, e] @ replicate (length ranked - 3) 0)
                \<and> (distinct (map userId ranked) \<longrightarrow>
                     (\<forall>i<length ranked. coinsOf (fst (endGame d rm)) (userId (ranked ! i))
                              = map_option (\<lambda>c. c + max 0 (coinsAwarded (rks ! i)))
                                  (coinsOf d (userId (ranked ! i)))))"
    by (intro exI[of _ rks] exI[of _ mode] conjI impI) (rule ev pl us sc | erule c2 c3 wl)+
  from ms ord ex show ?thesis
    unfolding Let_def ranked_def[symmetric] e_def[symmetric] by (intro conjI)
qed



theorem endGame_solo_ranking_witness:
  "\<exists>rks mode. snd (endGame exDbFinal exRoom) = [E_game_ended rks 250 mode]
      \<and> map place rks = [1, 2, 3] \<and> map rk_userId rks = [1, 3, 2]
      \<and> map rk_score rks = [62, 30, 30] \<and> map coinsAwarded rks = [750, 500, 250]
      \<and> coinsOf (fst (endGame exDbFinal exRoom)) 3 = Some 1500"
proof -
  have solo: "gameMode exRoom \<noteq> Some ''team_vs_team''" by (simp add: exRoom_def)
  have ux: "\<forall>p\<in>set (findAllActive exDbFinal (id_r exRoom)). findUserByPk exDbFinal (userId p) \<noteq> None"
    by code_simp
  have rk: "sortFinal (findAllActiveOrdered exDbFinal (id_r exRoom))
      = [(exParticipant 1 None True)\<lparr>score := 62, points_updated_at := Some 500000\<rparr>,
         (exParticipant 3 None False)\<lparr>score := 30, points_updated_at := Some 200000\<rparr>,
         (exParticipant 2 None False)\<lparr>score := 30, points_updated_at := Some 300000\<rparr>]"
    by code_simp
  have e: "entryPoints exRoom = 250" by (simp add: exRoom_def)
  let ?R = "sortFinal (findAllActiveOrdered exDbFinal (id_r exRoom))"
  have n: "length ?R = 3" by (simp add: rk)
  have dist: "distinct (map userId ?R)" by (simp add: rk exParticipant_def)
  note T = endGame_solo_ranking[OF solo ux, unfolded Let_def e]
  from T[THEN conjunct2, THEN conjunct2]
  obtain rks mode where H: "snd (endGame exDbFinal exRoom) = [E_game_ended rks 250 mode]
                \<and> map place rks = [1..<length ?R + 1]
                \<and> map rk_userId rks = map userId ?R
                \<and> map rk_score rks = map score ?R
                \<and> (length ?R = 2 \<longrightarrow> map coinsAwarded rks = [2 * 250, 0])
                \<and> (3 \<le> length ?R \<longrightarrow> map coinsAwarded rks = [3 * 250, 2 * 250, 250] @ replicate (length ?R - 3) 0)
                \<and> (distinct (map userId ?R) \<longrightarrow>
                     (\<forall>i<length ?R. coinsOf (fst (endGame exDbFinal exRoom)) (userId (?R ! i))
                              = map_option (\<lambda>c. c + max 0 (coinsAwarded (rks ! i)))
                                  (coinsOf exDbFinal (userId (?R ! i)))))"
    by (elim exE)
  note h1 = H[THEN conjunct1]
  note h2 = H[THEN conjunct2, THEN conjunct1]
  note h3 = H[THEN conjunct2, THEN conjunct2, THEN conjunct1]
  note h4 = H[THEN conjunct2, THEN conjunct2, THEN conjunct2, THEN conjunct1]
  note h6 = H[THEN conjunct2, THEN conjunct2, THEN conjunct2, THEN conjunct2, THEN conjunct2, THEN conjunct1]
  note h7 = H[THEN conjunct2, THEN conjunct2, THEN conjunct2, THEN conjunct2, THEN conjunct2, THEN conjunct2]
  have p: "map place rks = [1, 2, 3]" using h2 by (simp add: n upt_rec)
  have u: "map rk_userId rks = [1, 3, 2]" using h3 by (simp add: rk exParticipant_def)
  have sc: "map rk_score rks = [62, 30, 30]" using h4 by (simp add: rk exParticipant_def)
  have c: "map coinsAwarded rks = [750, 500, 250]" using h6 by (simp add: n)
  from c have "length (map coinsAwarded rks) = length [750, 500, 250::int]" by (rule arg_cong)
  then have lr: "length rks = 3" by simp
  then have "coinsAwarded (rks ! Suc 0) = map coinsAwarded rks ! Suc 0" by simp
  with c have c1: "coinsAwarded (rks ! Suc 0) = 500" by simp
  have k: "coinsOf exDbFinal 3 = Some 1000" by code_simp
  have idx: "userId (?R ! Suc 0) = 3" by (simp add: rk exParticipant_def)
  from h7[rule_format, OF dist, of 1] have w: "coinsOf (fst (endGame exDbFinal exRoom)) 3 = Some 1500"
    by (simp add: n idx c1 k)
  show ?thesis
    by (intro exI[of _ rks] exI[of _ mode] conjI) (rule h1 p u sc c w)+
qed


section \<open>Entry coins at the start of a game\<close>

lemma findUserByPk_markPaid [simp]: "findUserByPk (markPaid d p) k = findUserByPk d k"
  by (simp add: findUserByPk_def markPaid_def)

lemma coinsOf_markPaid [simp]: "coinsOf (markPaid d p) k = coinsOf d k"
  by (simp add: coinsOf_def)

lemma paidOf_creditUser [simp]: "paidOf (creditUser d u a r) k = paidOf d k"
  by (simp add: paidOf_def creditUser_def)

lemma paidOf_markPaid:
  "paidOf (markPaid d p) k = (if k = id_p p then map_option (\<lambda>_. True) (paidOf d k) else paidOf d k)"
proof -
  have h: "map_option hasPaidEntry
          (find (\<lambda>x. id_p x = k) (map (\<lambda>x. if id_p x = j then x\<lparr>hasPaidEntry := True\<rparr> else x) xs))
        = (if k = j then map_option (\<lambda>_. True) (map_option hasPaidEntry (find (\<lambda>x. id_p x = k) xs))
           else map_option hasPaidEntry (find (\<lambda>x. id_p x = k) xs))" for xs j
    by (induction xs) auto
  show ?thesis unfolding paidOf_def markPaid_def using h[of "id_p p" "participants d"] by simp
qed

lemma deductEntries_rooms: "rooms (fst (deductEntries d c ps)) = rooms d"
  by (induction ps arbitrary: d) (auto simp: markPaid_def creditUser_def split: option.splits)

lemma deductEntries_paid_none:
  "paidOf d k = None \<Longrightarrow> paidOf (fst (deductEntries d c ps)) k = None"
proof (induction ps arbitrary: d)
  case Nil
  then show ?case by simp
next
  case (Cons p ps)
  have s: "\<And>u. paidOf (markPaid (creditUser d u (- c) ''game_entry'') p) k = None"
    using Cons.prems by (auto simp: paidOf_markPaid)
  show ?case using Cons.prems Cons.IH[OF Cons.prems] Cons.IH[OF s] by (simp split: option.splits)
qed

lemma deductEntries_paid_kept:
  "paidOf d k = Some True \<Longrightarrow> paidOf (fst (deductEntries d c ps)) k = Some True"
proof (induction ps arbitrary: d)
  case Nil
  then show ?case by simp
next
  case (Cons p ps)
  have s: "\<And>u. paidOf (markPaid (creditUser d u (- c) ''game_entry'') p) k = Some True"
    using Cons.prems by (auto simp: paidOf_markPaid)
  show ?case using Cons.prems Cons.IH[OF Cons.prems] Cons.IH[OF s] by (simp split: option.splits)
qed

lemma deductEntries_coins_other:
  "k \<notin> userId ` set ps \<Longrightarrow> coinsOf (fst (deductEntries d c ps)) k = coinsOf d k"
proof (induction ps arbitrary: d)
  case Nil
  then show ?case by simp
next
  case (Cons p ps)
  then have kp: "k \<noteq> userId p" and kr: "k \<notin> userId ` set ps" by auto
  show ?case
  proof (cases "findUserByPk d (userId p)")
    case None
    then show ?thesis using Cons.IH[OF kr] by simp
  next
    case (Some u)
    then show ?thesis
      using Cons.IH[OF kr] kp by (simp add: coinsOf_creditUser[OF Some])
  qed
qed

lemma deductEntries_abort:
  assumes "distinct (map userId ps)" "snd (deductEntries d c ps) = Some short"
  shows "\<exists>k<length ps. \<not> hasPaidEntry (ps ! k)
           \<and> findUserByPk d (userId (ps ! k)) = Some short \<and> coins short < c
           \<and> (\<forall>i<k. charged d (ps ! i) \<longrightarrow>
                 coinsOf (fst (deductEntries d c ps)) (userId (ps ! i))
                   = map_option (\<lambda>x. x - c) (coinsOf d (userId (ps ! i)))
               \<and> paidOf (fst (deductEntries d c ps)) (id_p (ps ! i))
                   = map_option (\<lambda>_. True) (paidOf d (id_p (ps ! i))))"
  using assms
proof (induction ps arbitrary: d)
  case Nil
  then show ?case by simp
next
  case (Cons p ps)
  from Cons.prems have np: "userId p \<notin> userId ` set ps" and dr: "distinct (map userId ps)" by auto
  define pay where "pay \<longleftrightarrow> (\<exists>u. findUserByPk d (userId p) = Some u \<and> \<not> hasPaidEntry p)"
  show ?case
  proof (cases pay)
    case False
    then have skip: "deductEntries d c (p # ps) = deductEntries d c ps"
      by (auto simp: pay_def split: option.splits)
    from False have nc: "\<not> charged d p" by (auto simp: pay_def charged_def)
    from Cons.prems(2) have "snd (deductEntries d c ps) = Some short" by (simp only: skip)
    from Cons.IH[OF dr this] obtain k where k: "k < length ps" "\<not> hasPaidEntry (ps ! k)"
      "findUserByPk d (userId (ps ! k)) = Some short" "coins short < c"
      "\<forall>i<k. charged d (ps ! i) \<longrightarrow>
                 coinsOf (fst (deductEntries d c ps)) (userId (ps ! i))
                   = map_option (\<lambda>x. x - c) (coinsOf d (userId (ps ! i)))
               \<and> paidOf (fst (deductEntries d c ps)) (id_p (ps ! i))
                   = map_option (\<lambda>_. True) (paidOf d (id_p (ps ! i)))"
      by blast
    have "\<forall>i<Suc k. charged d ((p # ps) ! i) \<longrightarrow>
                 coinsOf (fst (deductEntries d c (p # ps))) (userId ((p # ps) ! i))
                   = map_option (\<lambda>x. x - c) (coinsOf d (userId ((p # ps) ! i)))
               \<and> paidOf (fst (deductEntries d c (p # ps))) (id_p ((p # ps) ! i))
                   = map_option (\<lambda>_. True) (paidOf d (id_p ((p # ps) ! i)))"
    proof (intro allI impI)
      fix i assume i: "i < Suc k" and ch: "charged d ((p # ps) ! i)"
      from ch nc obtain i' where i': "i = Suc i'" by (cases i) auto
      with i ch k(5) show "coinsOf (fst (deductEntries d c (p # ps))) (userId ((p # ps) ! i))
                   = map_option (\<lambda>x. x - c) (coinsOf d (userId ((p # ps) ! i)))
               \<and> paidOf (fst (deductEntries d c (p # ps))) (id_p ((p # ps) ! i))
                   = map_option (\<lambda>_. True) (paidOf d (id_p ((p # ps) ! i)))"
        by (simp only: skip) simp
    qed
    with k(1-4) show ?thesis
      by (intro exI[of _ "Suc k"]) simp
  next
    case True
    then obtain u where u: "findUserByPk d (userId p) = Some u" and np': "\<not> hasPaidEntry p"
      by (auto simp: pay_def)
    show ?thesis
    proof (cases "coins u < c")
      case True
      with u np' Cons.prems(2) have "short = u" by simp
      with u np' True show ?thesis by (intro exI[of _ 0]) simp
    next
      case False
      define d1 where "d1 = markPaid (creditUser d u (- c) ''game_entry'') p"
      have step: "deductEntries d c (p # ps) = deductEntries d1 c ps"
        using u np' False by (simp add: d1_def)
      have c1: "\<And>k. coinsOf d1 k = (if k = userId p then Some (coins u - c) else coinsOf d k)"
        by (simp add: d1_def coinsOf_creditUser[OF u])
      have p1: "\<And>k. paidOf d1 k = (if k = id_p p then map_option (\<lambda>_. True) (paidOf d k) else paidOf d k)"
        by (simp add: d1_def paidOf_markPaid)
      have f1: "\<And>k. k \<noteq> userId p \<Longrightarrow> findUserByPk d1 k = findUserByPk d k"
      proof -
        fix k assume kp: "k \<noteq> userId p"
        have "id_u u = userId p" using u by (rule findUserByPk_id)
        with kp show "findUserByPk d1 k = findUserByPk d k"
          by (cases "findUserByPk d k")
             (auto simp: d1_def findUserByPk_creditUser dest: findUserByPk_id)
      qed
      from Cons.prems(2) have "snd (deductEntries d1 c ps) = Some short" by (simp only: step)
      from Cons.IH[OF dr this] obtain k where k: "k < length ps" "\<not> hasPaidEntry (ps ! k)"
        "findUserByPk d1 (userId (ps ! k)) = Some short" "coins short < c"
        "\<forall>i<k. charged d1 (ps ! i) \<longrightarrow>
                 coinsOf (fst (deductEntries d1 c ps)) (userId (ps ! i))
                   = map_option (\<lambda>x. x - c) (coinsOf d1 (userId (ps ! i)))
               \<and> paidOf (fst (deductEntries d1 c ps)) (id_p (ps ! i))
                   = map_option (\<lambda>_. True) (paidOf d1 (id_p (ps ! i)))"
        by blast
      have ne: "\<And>i. i < length ps \<Longrightarrow> userId (ps ! i) \<noteq> userId p"
        using np by (metis image_eqI nth_mem)
      have fk: "findUserByPk d (userId (ps ! k)) = Some short"
        using k(3) f1[OF ne[OF k(1)]] by simp
      have "\<forall>i<Suc k. charged d ((p # ps) ! i) \<longrightarrow>
                 coinsOf (fst (deductEntries d c (p # ps))) (userId ((p # ps) ! i))
                   = map_option (\<lambda>x. x - c) (coinsOf d (userId ((p # ps) ! i)))
               \<and> paidOf (fst (deductEntries d c (p # ps))) (id_p ((p # ps) ! i))
                   = map_option (\<lambda>_. True) (paidOf d (id_p ((p # ps) ! i)))"
      proof (intro allI impI)
        fix i assume i: "i < Suc k" and ch: "charged d ((p # ps) ! i)"
        show "coinsOf (fst (deductEntries d c (p # ps))) (userId ((p # ps) ! i))
                   = map_option (\<lambda>x. x - c) (coinsOf d (userId ((p # ps) ! i)))
               \<and> paidOf (fst (deductEntries d c (p # ps))) (id_p ((p # ps) ! i))
                   = map_option (\<lambda>_. True) (paidOf d (id_p ((p # ps) ! i)))"
        proof (cases i)
          case 0
          have a: "coinsOf (fst (deductEntries d1 c ps)) (userId p) = Some (coins u - c)"
            using deductEntries_coins_other[OF np, of d1 c] by (simp add: c1)
          have "coinsOf d (userId p) = Some (coins u)" using u by (simp add: coinsOf_def)
          with a have a': "coinsOf (fst (deductEntries d1 c ps)) (userId p)
                            = map_option (\<lambda>x. x - c) (coinsOf d (userId p))" by simp
          have b: "paidOf (fst (deductEntries d1 c ps)) (id_p p) = map_option (\<lambda>_. True) (paidOf d (id_p p))"
          proof (cases "paidOf d (id_p p)")
            case None
            then have "paidOf d1 (id_p p) = None" by (simp add: p1)
            then have "paidOf (fst (deductEntries d1 c ps)) (id_p p) = None"
              by (rule deductEntries_paid_none)
            with None show ?thesis by simp
          next
            case (Some b)
            then have "paidOf d1 (id_p p) = Some True" by (simp add: p1)
            then have "paidOf (fst (deductEntries d1 c ps)) (id_p p) = Some True"
              by (rule deductEntries_paid_kept)
            with Some show ?thesis by simp
          qed
          from 0 a' b show ?thesis by (simp only: step) simp
        next
          case (Suc i')
          with i have i'k: "i' < k" by simp
          with k(1) have i'l: "i' < length ps" by simp
          from ch Suc have "charged d (ps ! i')" by simp
          then have "charged d1 (ps ! i')"
            using f1[OF ne[OF i'l]] by (simp add: charged_def)
          with k(5) i'k have h: "coinsOf (fst (deductEntries d1 c ps)) (userId (ps ! i'))
                   = map_option (\<lambda>x. x - c) (coinsOf d1 (userId (ps ! i')))"
               "paidOf (fst (deductEntries d1 c ps)) (id_p (ps ! i'))
                   = map_option (\<lambda>_. True) (paidOf d1 (id_p (ps ! i')))"
            by blast+
          have h1: "coinsOf d1 (userId (ps ! i')) = coinsOf d (userId (ps ! i'))"
            using ne[OF i'l] by (simp add: c1)
          have h2: "map_option (\<lambda>_. True) (paidOf d1 (id_p (ps ! i')))
                    = map_option (\<lambda>_. True) (paidOf d (id_p (ps ! i')))"
            by (simp add: p1 option.map_comp comp_def)
          from Suc h h1 h2 show ?thesis by (simp only: step) simp
        qed
      qed
      with k(1,2,4) fk show ?thesis
        by (intro exI[of _ "Suc k"]) simp
    qed
  qed
qed

lemma findAllActive_distinct:
  assumes "distinct (map (\<lambda>p. (roomId p, userId p)) (participants d))"
  shows "distinct (map userId (findAllActive d rid))"
proof -
  have "distinct (map userId (filter (\<lambda>p. roomId p = rid \<and> isActive p) xs))"
    if "distinct (map (\<lambda>p. (roomId p, userId p)) xs)" for xs
    using that by (induction xs) (auto simp: image_iff)
  with assms show ?thesis by (simp add: findAllActive_def)
qed

lemma paidOf_member: "p \<in> set (participants d) \<Longrightarrow> paidOf d (id_p p) \<noteq> None"
  by (auto simp: paidOf_def find_None_iff)

lemma start_game_abort:
  assumes "snd (start_game startNewRound d rs su rc ri) = [E_error ''insufficient_coins'']"
  shows "\<exists>rm short. resolveRoom d rc ri = Some rm
           \<and> (status rm = ''lobby'' \<or> status rm = ''waiting'')
           \<and> deductEntries d (calculateEntryCost (entryPoints rm) (voiceEnabled rm))
                 (findAllActive d (id_r rm))
               = (fst (fst (start_game startNewRound d rs su rc ri)), Some short)"
proof (cases "resolveRoom d rc ri")
  case None
  with assms show ?thesis by (simp add: start_game_def)
next
  case (Some rm)
  obtain d1 r where l: "deductEntries d (calculateEntryCost (entryPoints rm) (voiceEnabled rm))
                          (findAllActive d (id_r rm)) = (d1, r)" by force
  from assms Some l have g: "status rm = ''lobby'' \<or> status rm = ''waiting''"
    by (auto simp: start_game_def Let_def split: option.splits if_splits)
  from assms Some l have "r \<noteq> None \<and> fst (fst (start_game startNewRound d rs su rc ri)) = d1"
    by (auto simp: start_game_def Let_def split: option.splits if_splits prod.splits)
  with Some l g show ?thesis by auto
qed

text \<open>
  Claim C10. When \<^verbatim>\<open>start_game\<close> answers \<open>insufficient_coins\<close>, the loop stopped at
  some participant \<open>k\<close> of the room's active participants who had not paid and whose
  user has fewer coins than the entry cost. Every participant before \<open>k\<close> who was
  charged (not yet marked, with a user row) keeps the charge: the user's balance is the
  old one less the entry cost, and the participant row is marked \<open>hasPaidEntry\<close>. No
  room row has changed, and the room's status is still \<open>lobby\<close> or \<open>waiting\<close>. A
  user has at most one row in a room.
\<close>

theorem start_game_insufficient_coins:
  assumes ab: "snd (start_game startNewRound d rs su rc ri) = [E_error ''insufficient_coins'']"
      and uq: "distinct (map (\<lambda>p. (roomId p, userId p)) (participants d))"
  shows "\<exists>rm k. resolveRoom d rc ri = Some rm
           \<and> (status rm = ''lobby'' \<or> status rm = ''waiting'')
           \<and> rooms (fst (fst (start_game startNewRound d rs su rc ri))) = rooms d
           \<and> k < length (findAllActive d (id_r rm))
           \<and> \<not> hasPaidEntry (findAllActive d (id_r rm) ! k)
           \<and> (\<exists>u. findUserByPk d (userId (findAllActive d (id_r rm) ! k)) = Some u
                  \<and> coins u < calculateEntryCost (entryPoints rm) (voiceEnabled rm))
           \<and> (\<forall>i<k. charged d (findAllActive d (id_r rm) ! i) \<longrightarrow>
                 coinsOf (fst (fst (start_game startNewRound d rs su rc ri)))
                     (userId (findAllActive d (id_r rm) ! i))
                   = map_option (\<lambda>x. x - calculateEntryCost (entryPoints rm) (voiceEnabled rm))
                       (coinsOf d (userId (findAllActive d (id_r rm) ! i)))
               \<and> paidOf (fst (fst (start_game startNewRound d rs su rc ri)))
                     (id_p (findAllActive d (id_r rm) ! i)) = Some True)"
proof -
  from start_game_abort[OF ab] obtain rm short where rm: "resolveRoom d rc ri = Some rm"
    and st: "status rm = ''lobby'' \<or> status rm = ''waiting''"
    and l: "deductEntries d (calculateEntryCost (entryPoints rm) (voiceEnabled rm))
                 (findAllActive d (id_r rm))
               = (fst (fst (start_game startNewRound d rs su rc ri)), Some short)"
    by blast
  define ps where "ps = findAllActive d (id_r rm)"
  define c where "c = calculateEntryCost (entryPoints rm) (voiceEnabled rm)"
  define d' where "d' = fst (fst (start_game startNewRound d rs su rc ri))"
  have l': "deductEntries d c ps = (d', Some short)" using l by (simp add: ps_def c_def d'_def)
  have dist: "distinct (map userId ps)" unfolding ps_def by (rule findAllActive_distinct[OF uq])
  have s: "snd (deductEntries d c ps) = Some short" by (simp add: l')
  have f: "fst (deductEntries d c ps) = d'" by (simp add: l')
  from deductEntries_abort[OF dist s, unfolded f]
  obtain k where k: "k < length ps" "\<not> hasPaidEntry (ps ! k)"
      "findUserByPk d (userId (ps ! k)) = Some short" "coins short < c"
      "\<forall>i<k. charged d (ps ! i) \<longrightarrow>
                 coinsOf d' (userId (ps ! i)) = map_option (\<lambda>x. x - c) (coinsOf d (userId (ps ! i)))
               \<and> paidOf d' (id_p (ps ! i)) = map_option (\<lambda>_. True) (paidOf d (id_p (ps ! i)))"
    by blast
  have r: "rooms d' = rooms d" using deductEntries_rooms[of d c ps] by (simp add: f)
  have m: "\<forall>i<k. charged d (ps ! i) \<longrightarrow>
                 coinsOf d' (userId (ps ! i)) = map_option (\<lambda>x. x - c) (coinsOf d (userId (ps ! i)))
               \<and> paidOf d' (id_p (ps ! i)) = Some True"
  proof (intro allI impI)
    fix i assume i: "i < k" and ch: "charged d (ps ! i)"
    from i k(1) have "ps ! i \<in> set ps" by simp
    then have "ps ! i \<in> set (participants d)" by (simp add: ps_def findAllActive_def)
    from paidOf_member[OF this] obtain b where "paidOf d (id_p (ps ! i)) = Some b" by auto
    with k(5) i ch show "coinsOf d' (userId (ps ! i)) = map_option (\<lambda>x. x - c) (coinsOf d (userId (ps ! i)))
               \<and> paidOf d' (id_p (ps ! i)) = Some True"
      by simp
  qed
  have u: "\<exists>u. findUserByPk d (userId (ps ! k)) = Some u \<and> coins u < c"
    using k(3,4) by blast
  note facts = r[unfolded d'_def] k(1,2)[unfolded ps_def] u[unfolded ps_def c_def]
    m[unfolded ps_def c_def d'_def]
  show ?thesis
    by (intro exI[of _ rm] exI[of _ k] conjI)
       (rule rm, rule st, rule facts(1), rule facts(2), rule facts(3), rule facts(4), rule facts(5))
qed

theorem start_game_insufficient_coins_witness:
  "snd (start_game (\<lambda>d r. (d, [])) exLobbyDb exReady (Some (exUser 31 ''A'' 1000)) (Some ''LOBBY'') None)
     = [E_error ''insufficient_coins'']
   \<and> rooms (fst (fst (start_game (\<lambda>d r. (d, [])) exLobbyDb exReady (Some (exUser 31 ''A'' 1000)) (Some ''LOBBY'') None)))
       = [exLobbyRoom]
   \<and> coinsOf (fst (fst (start_game (\<lambda>d r. (d, [])) exLobbyDb exReady (Some (exUser 31 ''A'' 1000)) (Some ''LOBBY'') None))) 31
       = Some 750
   \<and> coinsOf (fst (fst (start_game (\<lambda>d r. (d, [])) exLobbyDb exReady (Some (exUser 31 ''A'' 1000)) (Some ''LOBBY'') None))) 32
       = Some 50
   \<and> paidOf (fst (fst (start_game (\<lambda>d r. (d, [])) exLobbyDb exReady (Some (exUser 31 ''A'' 1000)) (Some ''LOBBY'') None))) 41
       = Some True
   \<and> paidOf (fst (fst (start_game (\<lambda>d r. (d, [])) exLobbyDb exReady (Some (exUser 31 ''A'' 1000)) (Some ''LOBBY'') None))) 42
       = Some True"
proof -
  let ?S = "start_game (\<lambda>d r. (d, [])) exLobbyDb exReady (Some (exUser 31 ''A'' 1000)) (Some ''LOBBY'') None"
  let ?ps = "[exLobbyParticipant 31, exLobbyParticipant 32, exLobbyParticipant 33]"
  have ab: "snd ?S = [E_error ''insufficient_coins'']"
    by (simp add: start_game_def resolveRoom_def getRoomByCode_def exLobbyDb_def exLobbyRoom_def
          exUser_def findAllActive_def exLobbyParticipant_def exParticipant_def areAllReady_def
          exReady_def calculateEntryCost_def findUserByPk_def creditUser_def markPaid_def Let_def)
  have uq: "distinct (map (\<lambda>p. (roomId p, userId p)) (participants exLobbyDb))"
    by (simp add: exLobbyDb_def exLobbyParticipant_def exParticipant_def)
  from start_game_insufficient_coins[OF ab uq]
  obtain rm k where H: "resolveRoom exLobbyDb (Some ''LOBBY'') None = Some rm
           \<and> (status rm = ''lobby'' \<or> status rm = ''waiting'')
           \<and> rooms (fst (fst ?S)) = rooms exLobbyDb
           \<and> k < length (findAllActive exLobbyDb (id_r rm))
           \<and> \<not> hasPaidEntry (findAllActive exLobbyDb (id_r rm) ! k)
           \<and> (\<exists>u. findUserByPk exLobbyDb (userId (findAllActive exLobbyDb (id_r rm) ! k)) = Some u
                  \<and> coins u < calculateEntryCost (entryPoints rm) (voiceEnabled rm))
           \<and> (\<forall>i<k. charged exLobbyDb (findAllActive exLobbyDb (id_r rm) ! i) \<longrightarrow>
                 coinsOf (fst (fst ?S)) (userId (findAllActive exLobbyDb (id_r rm) ! i))
                   = map_option (\<lambda>x. x - calculateEntryCost (entryPoints rm) (voiceEnabled rm))
                       (coinsOf exLobbyDb (userId (findAllActive exLobbyDb (id_r rm) ! i)))
               \<and> paidOf (fst (fst ?S)) (id_p (findAllActive exLobbyDb (id_r rm) ! i)) = Some True)"
    by (elim exE)
  have "resolveRoom exLobbyDb (Some ''LOBBY'') None = Some exLobbyRoom"
    by (simp add: resolveRoom_def getRoomByCode_def exLobbyDb_def exLobbyRoom_def)
  with H[THEN conjunct1] have rm: "rm = exLobbyRoom" by simp
  have ps: "findAllActive exLobbyDb (id_r exLobbyRoom) = ?ps"
    by (simp add: findAllActive_def exLobbyDb_def exLobbyRoom_def exLobbyParticipant_def exParticipant_def)
  have c: "calculateEntryCost (entryPoints exLobbyRoom) (voiceEnabled exLobbyRoom) = 250"
    by (simp add: calculateEntryCost_def exLobbyRoom_def)
  note h3 = H[THEN conjunct2, THEN conjunct2, THEN conjunct1]
  note h4 = H[THEN conjunct2, THEN conjunct2, THEN conjunct2, THEN conjunct1, unfolded rm ps]
  note h6 = H[THEN conjunct2, THEN conjunct2, THEN conjunct2, THEN conjunct2, THEN conjunct2, THEN conjunct1,
              unfolded rm ps c]
  note h7 = H[THEN conjunct2, THEN conjunct2, THEN conjunct2, THEN conjunct2, THEN conjunct2, THEN conjunct2,
              unfolded rm ps c]
  have u0: "findUserByPk exLobbyDb 31 = Some (exUser 31 ''A'' 1000)"
    and u1: "findUserByPk exLobbyDb 32 = Some (exUser 32 ''B'' 300)"
    by (simp_all add: findUserByPk_def exLobbyDb_def exUser_def)
  have k2: "k = 2"
  proof -
    from h4 have "k = 0 \<or> k = 1 \<or> k = 2" by auto
    moreover have "k \<noteq> 0"
    proof
      assume "k = 0"
      with h6 u0 show False by (auto simp: exLobbyParticipant_def exParticipant_def exUser_def)
    qed
    moreover have "k \<noteq> 1"
    proof
      assume "k = 1"
      with h6 u1 show False by (auto simp: exLobbyParticipant_def exParticipant_def exUser_def)
    qed
    ultimately show ?thesis by simp
  qed
  have ch0: "charged exLobbyDb (?ps ! 0)" and ch1: "charged exLobbyDb (?ps ! 1)"
    using u0 u1 by (simp_all add: charged_def exLobbyParticipant_def exParticipant_def)
  have a0: "coinsOf exLobbyDb 31 = Some 1000" and a1: "coinsOf exLobbyDb 32 = Some 300"
    using u0 u1 by (simp_all add: coinsOf_def exUser_def)
  from h7[rule_format, of 0] k2 ch0 a0
  have r0: "coinsOf (fst (fst ?S)) 31 = Some 750" "paidOf (fst (fst ?S)) 41 = Some True"
    by (simp_all add: exLobbyParticipant_def exParticipant_def)
  from h7[rule_format, of 1] k2 ch1 a1
  have r1: "coinsOf (fst (fst ?S)) 32 = Some 50" "paidOf (fst (fst ?S)) 42 = Some True"
    by (simp_all add: exLobbyParticipant_def exParticipant_def)
  have rr: "rooms (fst (fst ?S)) = [exLobbyRoom]" using h3 by (simp add: exLobbyDb_def)
  show ?thesis
    by (intro conjI) (rule ab, rule rr, rule r0(1), rule r1(1), rule r0(2), rule r1(2))
qed

section \<open>One session per user\<close>

lemma registered_liveI:
  assumes "\<And>u sid. userSocketMap s u = Some sid \<Longrightarrow> sockets s sid = Some (Some u)"
      and "\<And>u sid. sockets s sid = Some (Some u) \<Longrightarrow> userSocketMap s u = Some sid \<and> u \<noteq> 0"
      and "\<And>sid. sockets s sid \<noteq> None \<Longrightarrow> closing s sid = None"
      and "sockets s [] = None"
  shows "registered_live s"
  using assms unfolding registered_live_def by blast

lemma registered_liveD:
  assumes "registered_live s"
  shows "userSocketMap s u = Some sid \<Longrightarrow> sockets s sid = Some (Some u)"
    and "sockets s sid = Some (Some u) \<Longrightarrow> userSocketMap s u = Some sid"
    and "sockets s sid = Some (Some u) \<Longrightarrow> u \<noteq> 0"
    and "sockets s sid \<noteq> None \<Longrightarrow> closing s sid = None"
    and "sockets s [] = None"
  using assms unfolding registered_live_def by blast+

lemma registered_live_init: "registered_live noSessions"
  by (simp add: registered_live_def noSessions_def)

lemma disconnect_map:
  assumes inv: "registered_live s"
  shows "userSocketMap (disconnect sid s) u
           = (if userSocketMap s u = Some sid then None else userSocketMap s u)"
proof (cases "sockets s sid")
  case None
  have nr: "userSocketMap s v \<noteq> Some sid" for v
    using registered_liveD(1)[OF inv, of v sid] None by auto
  then show ?thesis
    by (cases "closing s sid")
       (auto simp: disconnect_def None on_disconnect_def getSocketIdForUser_def deleteUser_def
             split: option.splits)
next
  case (Some uid)
  show ?thesis
  proof (cases uid)
    case None
    have "userSocketMap s v \<noteq> Some sid" for v
      using registered_liveD(1)[OF inv, of v sid] Some None by auto
    then show ?thesis by (simp add: disconnect_def Some None on_disconnect_def)
  next
    case (Some w)
    have w: "userSocketMap s w = Some sid" "w \<noteq> 0"
      using registered_liveD(2,3)[OF inv, of sid w] \<open>sockets s sid = Some uid\<close> Some by auto
    have o: "userSocketMap s v = Some sid \<Longrightarrow> v = w" for v
      using registered_liveD(1)[OF inv, of v sid] \<open>sockets s sid = Some uid\<close> Some by auto
    have e: "userSocketMap (disconnect sid s) = (userSocketMap s)(w := None)"
      using w by (simp add: disconnect_def \<open>sockets s sid = Some uid\<close> Some on_disconnect_def
            getSocketIdForUser_def deleteUser_def)
    show ?thesis
    proof (cases "u = w")
      case True
      with w show ?thesis by (simp add: e)
    next
      case False
      with o[of u] have "userSocketMap s u \<noteq> Some sid" by blast
      with False show ?thesis by (simp add: e)
    qed
  qed
qed

lemma disconnect_sockets: "sockets (disconnect sid s) = (sockets s)(sid := None)"
  by (auto simp: disconnect_def on_disconnect_def deleteUser_def fun_eq_iff split: option.splits)

lemma disconnect_closing:
  "closing (disconnect sid s) t = (if t = sid then None else closing s t)"
  by (auto simp: disconnect_def on_disconnect_def deleteUser_def split: option.splits)

lemma registered_live_disconnect:
  assumes inv: "registered_live s"
  shows "registered_live (disconnect sid s)"
proof (rule registered_liveI)
  fix u t assume "userSocketMap (disconnect sid s) u = Some t"
  then have m: "userSocketMap s u = Some t" "t \<noteq> sid"
    by (auto simp: disconnect_map[OF inv] split: if_splits)
  with registered_liveD(1)[OF inv m(1)] show "sockets (disconnect sid s) t = Some (Some u)"
    by (simp add: disconnect_sockets)
next
  fix u t assume "sockets (disconnect sid s) t = Some (Some u)"
  then have l: "sockets s t = Some (Some u)" "t \<noteq> sid"
    by (auto simp: disconnect_sockets split: if_splits)
  from registered_liveD(2,3)[OF inv l(1)] l(2)
  show "userSocketMap (disconnect sid s) u = Some t \<and> u \<noteq> 0"
    by (simp add: disconnect_map[OF inv])
next
  fix t assume "sockets (disconnect sid s) t \<noteq> None"
  then have "sockets s t \<noteq> None" "t \<noteq> sid"
    by (auto simp: disconnect_sockets split: if_splits)
  with registered_liveD(4)[OF inv, of t] show "closing (disconnect sid s) t = None"
    by (simp add: disconnect_closing)
next
  show "sockets (disconnect sid s) [] = None"
    using registered_liveD(5)[OF inv] by (simp add: disconnect_sockets)
qed


lemma connection_anonymous:
  assumes "usr = None \<or> usr = Some 0"
  shows "connection sync sid usr s = s\<lparr>sockets := (sockets s)(sid \<mapsto> None)\<rparr>"
  using assms by (auto simp: connection_def)

lemma connection_first:
  assumes "u \<noteq> 0" "userSocketMap s u = None"
  shows "connection sync sid (Some u) s
           = s\<lparr>userSocketMap := (userSocketMap s)(u \<mapsto> sid), sockets := (sockets s)(sid \<mapsto> Some u)\<rparr>"
  using assms by (simp add: connection_def getSocketIdForUser_def setSocketForUser_def)

lemma connection_evict:
  assumes inv: "registered_live s"
      and u: "u \<noteq> 0" and p: "userSocketMap s u = Some p" and fresh: "sockets s sid = None"
  shows "connection sync sid (Some u) s
           = s\<lparr>userSocketMap := (userSocketMap s)(u \<mapsto> sid),
               sockets := ((sockets s)(p := None))(sid \<mapsto> Some u),
               closing := (if sync then closing s else (closing s)(p \<mapsto> Some u))\<rparr>"
proof -
  have lp: "sockets s p = Some (Some u)" using registered_liveD(1)[OF inv p] .
  with fresh have ne: "p \<noteq> sid" by auto
  from lp registered_liveD(5)[OF inv] have ne2: "p \<noteq> []" by auto
  define s0 where "s0 = s\<lparr>sockets := (sockets s)(sid \<mapsto> None)\<rparr>"
  have f: "force_disconnect sync p s0
             = (if sync then s0\<lparr>sockets := (sockets s0)(p := None), userSocketMap := (userSocketMap s)(u := None)\<rparr>
                else s0\<lparr>sockets := (sockets s0)(p := None), closing := (closing s)(p \<mapsto> Some u)\<rparr>)"
    using lp ne u p
    by (simp add: force_disconnect_def s0_def on_disconnect_def getSocketIdForUser_def deleteUser_def)
  have g: "getSocketIdForUser s0 u = Some p" "sockets s0 p \<noteq> None"
    using p lp ne by (simp_all add: s0_def getSocketIdForUser_def)
  have c: "connection sync sid (Some u) s
             = (let s1 = force_disconnect sync p s0; s2 = setSocketForUser s1 u sid
                in s2\<lparr>sockets := (sockets s2)(sid \<mapsto> Some u)\<rparr>)"
    unfolding connection_def s0_def[symmetric] using u ne ne2 g by (simp add: Let_def)
  show ?thesis
    unfolding c f
    by (cases sync) (simp_all add: Let_def setSocketForUser_def s0_def fun_upd_twist)
qed

lemma registered_live_connection:
  assumes inv: "registered_live s"
      and fresh: "sid \<noteq> []" "sockets s sid = None" "closing s sid = None"
  shows "registered_live (connection sync sid usr s)"
proof -
  consider (anon) "usr = None \<or> usr = Some 0"
    | (first) u where "usr = Some u" "u \<noteq> 0" "userSocketMap s u = None"
    | (evict) u p where "usr = Some u" "u \<noteq> 0" "userSocketMap s u = Some p"
    by (cases usr) auto
  then show ?thesis
  proof cases
    case anon
    show ?thesis
      unfolding connection_anonymous[OF anon]
    proof (rule registered_liveI)
      fix u t assume "userSocketMap (s\<lparr>sockets := (sockets s)(sid \<mapsto> None)\<rparr>) u = Some t"
      then have m: "userSocketMap s u = Some t" by simp
      from registered_liveD(1)[OF inv m] fresh(2) have "t \<noteq> sid" by auto
      with registered_liveD(1)[OF inv m]
      show "sockets (s\<lparr>sockets := (sockets s)(sid \<mapsto> None)\<rparr>) t = Some (Some u)" by simp
    next
      fix u t assume "sockets (s\<lparr>sockets := (sockets s)(sid \<mapsto> None)\<rparr>) t = Some (Some u)"
      then have "sockets s t = Some (Some u)" by (simp split: if_splits)
      from registered_liveD(2,3)[OF inv this]
      show "userSocketMap (s\<lparr>sockets := (sockets s)(sid \<mapsto> None)\<rparr>) u = Some t \<and> u \<noteq> 0" by simp
    next
      fix t assume "sockets (s\<lparr>sockets := (sockets s)(sid \<mapsto> None)\<rparr>) t \<noteq> None"
      then have "t = sid \<or> sockets s t \<noteq> None" by (simp split: if_splits)
      with fresh(3) registered_liveD(4)[OF inv, of t]
      show "closing (s\<lparr>sockets := (sockets s)(sid \<mapsto> None)\<rparr>) t = None" by auto
    next
      show "sockets (s\<lparr>sockets := (sockets s)(sid \<mapsto> None)\<rparr>) [] = None"
        using fresh(1) registered_liveD(5)[OF inv] by simp
    qed
  next
    case (first u)
    let ?s' = "s\<lparr>userSocketMap := (userSocketMap s)(u \<mapsto> sid), sockets := (sockets s)(sid \<mapsto> Some u)\<rparr>"
    have "registered_live ?s'"
    proof (rule registered_liveI)
      fix v t assume a: "userSocketMap ?s' v = Some t"
      show "sockets ?s' t = Some (Some v)"
      proof (cases "v = u")
        case True
        with a show ?thesis by simp
      next
        case False
        with a have m: "userSocketMap s v = Some t" by simp
        from registered_liveD(1)[OF inv m] fresh(2) have "t \<noteq> sid" by auto
        with registered_liveD(1)[OF inv m] show ?thesis by simp
      qed
    next
      fix v t assume a: "sockets ?s' t = Some (Some v)"
      show "userSocketMap ?s' v = Some t \<and> v \<noteq> 0"
      proof (cases "t = sid")
        case True
        with a first(2) show ?thesis by simp
      next
        case False
        with a have l: "sockets s t = Some (Some v)" by simp
        from registered_liveD(2)[OF inv l] first(3) have "v \<noteq> u" by auto
        with registered_liveD(2,3)[OF inv l] show ?thesis by simp
      qed
    next
      fix t assume "sockets ?s' t \<noteq> None"
      then have "t = sid \<or> sockets s t \<noteq> None" by (simp split: if_splits)
      with fresh(3) registered_liveD(4)[OF inv, of t] show "closing ?s' t = None" by auto
    next
      show "sockets ?s' [] = None" using fresh(1) registered_liveD(5)[OF inv] by simp
    qed
    then show ?thesis by (simp only: first(1) connection_first[OF first(2,3)])
  next
    case (evict u p)
    let ?s' = "s\<lparr>userSocketMap := (userSocketMap s)(u \<mapsto> sid),
               sockets := ((sockets s)(p := None))(sid \<mapsto> Some u),
               closing := (if sync then closing s else (closing s)(p \<mapsto> Some u))\<rparr>"
    have lp: "sockets s p = Some (Some u)" using registered_liveD(1)[OF inv evict(3)] .
    with fresh(2) have ne: "p \<noteq> sid" by auto
    have "registered_live ?s'"
    proof (rule registered_liveI)
      fix v t assume a: "userSocketMap ?s' v = Some t"
      show "sockets ?s' t = Some (Some v)"
      proof (cases "v = u")
        case True
        with a show ?thesis by simp
      next
        case False
        with a have m: "userSocketMap s v = Some t" by simp
        note l = registered_liveD(1)[OF inv m]
        from l fresh(2) have "t \<noteq> sid" by auto
        moreover from l lp False have "t \<noteq> p" by auto
        ultimately show ?thesis using l by simp
      qed
    next
      fix v t assume a: "sockets ?s' t = Some (Some v)"
      show "userSocketMap ?s' v = Some t \<and> v \<noteq> 0"
      proof (cases "t = sid")
        case True
        with a evict(2) show ?thesis by simp
      next
        case False
        with a have l: "sockets s t = Some (Some v)" "t \<noteq> p" by (simp_all split: if_splits)
        from registered_liveD(2)[OF inv l(1)] evict(3) l(2) have "v \<noteq> u" by auto
        with registered_liveD(2,3)[OF inv l(1)] show ?thesis by simp
      qed
    next
      fix t assume "sockets ?s' t \<noteq> None"
      then have "t = sid \<or> (t \<noteq> p \<and> sockets s t \<noteq> None)" by (simp split: if_splits)
      with fresh(3) ne registered_liveD(4)[OF inv, of t] show "closing ?s' t = None" by auto
    next
      show "sockets ?s' [] = None" using fresh(1) registered_liveD(5)[OF inv] by simp
    qed
    then show ?thesis by (simp only: evict(1) connection_evict[OF inv evict(2,3) fresh(2)])
  qed
qed

lemma run_sessions_invariant:
  assumes "registered_live s" "run_sessions s evs = Some s'"
  shows "registered_live s'"
  using assms
proof (induction s evs rule: run_sessions.induct)
  case (1 s)
  then show ?case by simp
next
  case (2 s sync sid usr es)
  from 2(3) have f: "sid \<noteq> []" "sockets s sid = None" "closing s sid = None"
    and r: "run_sessions (connection sync sid usr s) es = Some s'"
    by (auto split: if_splits)
  from 2(1)[OF _ registered_live_connection[OF 2(2) f] r] f show ?case by simp
next
  case (3 s sid es)
  from 3(1)[OF registered_live_disconnect[OF 3(2)]] 3(3) show ?case by simp
qed

text \<open>
  Claim C5. In every state the server reaches, the socket registered for a user is a
  connected socket of that user, and a user has at most one connected socket: the map,
  which holds one socket id per user, names it. An authenticated connection under a
  fresh id registers itself for its user, leaves the entries of other users alone, and
  the socket registered before for that user is no longer connected afterwards. A
  \<open>disconnect\<close> event removes the entry of a user exactly when the entry names the
  disconnecting socket, and changes no other entry.
\<close>

theorem single_session:
  assumes run: "run_sessions noSessions evs = Some s"
  shows "(\<forall>u sid. userSocketMap s u = Some sid \<longrightarrow> sockets s sid = Some (Some u))
       \<and> (\<forall>u a b. sockets s a = Some (Some u) \<and> sockets s b = Some (Some u) \<longrightarrow> a = b)
       \<and> (\<forall>sync sid u. u \<noteq> 0 \<and> sid \<noteq> [] \<and> sockets s sid = None \<and> closing s sid = None \<longrightarrow>
             userSocketMap (connection sync sid (Some u) s) u = Some sid
           \<and> (\<forall>v. v \<noteq> u \<longrightarrow> userSocketMap (connection sync sid (Some u) s) v = userSocketMap s v)
           \<and> (\<forall>p. userSocketMap s u = Some p \<longrightarrow> sockets (connection sync sid (Some u) s) p = None))
       \<and> (\<forall>sid u. userSocketMap (disconnect sid s) u
                     = (if userSocketMap s u = Some sid then None else userSocketMap s u))"
proof -
  have inv: "registered_live s"
    using run_sessions_invariant[OF registered_live_init run] .
  have a: "\<forall>u sid. userSocketMap s u = Some sid \<longrightarrow> sockets s sid = Some (Some u)"
    using registered_liveD(1)[OF inv] by blast
  have b: "\<forall>u a b. sockets s a = Some (Some u) \<and> sockets s b = Some (Some u) \<longrightarrow> a = b"
  proof (intro allI impI)
    fix u a b assume h: "sockets s a = Some (Some u) \<and> sockets s b = Some (Some u)"
    then have "userSocketMap s u = Some a" "userSocketMap s u = Some b"
      using registered_liveD(2)[OF inv] by blast+
    then show "a = b" by simp
  qed
  have c: "\<forall>sync sid u. u \<noteq> 0 \<and> sid \<noteq> [] \<and> sockets s sid = None \<and> closing s sid = None \<longrightarrow>
             userSocketMap (connection sync sid (Some u) s) u = Some sid
           \<and> (\<forall>v. v \<noteq> u \<longrightarrow> userSocketMap (connection sync sid (Some u) s) v = userSocketMap s v)
           \<and> (\<forall>p. userSocketMap s u = Some p \<longrightarrow> sockets (connection sync sid (Some u) s) p = None)"
  proof (intro allI impI)
    fix sync :: bool and sid :: string and u :: nat
    assume h: "u \<noteq> 0 \<and> sid \<noteq> [] \<and> sockets s sid = None \<and> closing s sid = None"
    then have u: "u \<noteq> 0" and fresh: "sockets s sid = None" by simp_all
    show "userSocketMap (connection sync sid (Some u) s) u = Some sid
           \<and> (\<forall>v. v \<noteq> u \<longrightarrow> userSocketMap (connection sync sid (Some u) s) v = userSocketMap s v)
           \<and> (\<forall>p. userSocketMap s u = Some p \<longrightarrow> sockets (connection sync sid (Some u) s) p = None)"
    proof (cases "userSocketMap s u")
      case None
      then show ?thesis by (simp add: connection_first[OF u None])
    next
      case (Some p)
      have "sockets s p = Some (Some u)" using registered_liveD(1)[OF inv Some] .
      with fresh have "p \<noteq> sid" by auto
      then show ?thesis by (simp add: connection_evict[OF inv u Some fresh] Some)
    qed
  qed
  have d: "\<forall>sid u. userSocketMap (disconnect sid s) u
                     = (if userSocketMap s u = Some sid then None else userSocketMap s u)"
    using disconnect_map[OF inv] by blast
  show ?thesis by (intro conjI) (rule a, rule b, rule c, rule d)
qed

theorem single_session_witness:
  "run_sessions noSessions [Connect True ''a'' (Some 7), Connect False ''b'' (Some 7)] = Some exSessions
   \<and> userSocketMap exSessions 7 = Some ''b''
   \<and> sockets exSessions ''b'' = Some (Some 7)
   \<and> sockets exSessions ''a'' = None
   \<and> userSocketMap (disconnect ''a'' exSessions) 7 = Some ''b''
   \<and> userSocketMap (connection True ''c'' (Some 7) exSessions) 7 = Some ''c''
   \<and> sockets (connection True ''c'' (Some 7) exSessions) ''b'' = None"
proof -
  have run: "run_sessions noSessions [Connect True ''a'' (Some 7), Connect False ''b'' (Some 7)] = Some exSessions"
    by (simp add: noSessions_def exSessions_def connection_def force_disconnect_def on_disconnect_def
          getSocketIdForUser_def setSocketForUser_def deleteUser_def Let_def fun_eq_iff)
  note T = single_session[OF run]
  have m: "userSocketMap exSessions 7 = Some ''b''" by (simp add: exSessions_def)
  have l: "sockets exSessions ''b'' = Some (Some 7)"
    using T[THEN conjunct1, rule_format, OF m] .
  have g: "sockets exSessions ''a'' = None" by (simp add: exSessions_def)
  have dd: "userSocketMap (disconnect ''a'' exSessions) 7 = Some ''b''"
    using T[THEN conjunct2, THEN conjunct2, THEN conjunct2, rule_format, of "''a''" 7] m by simp
  have f: "(7::nat) \<noteq> 0 \<and> ''c'' \<noteq> [] \<and> sockets exSessions ''c'' = None \<and> closing exSessions ''c'' = None"
    by (simp add: exSessions_def)
  note C = T[THEN conjunct2, THEN conjunct2, THEN conjunct1, rule_format, OF f, of True]
  have c1: "userSocketMap (connection True ''c'' (Some 7) exSessions) 7 = Some ''c''"
    using C[THEN conjunct1] .
  have c2: "sockets (connection True ''c'' (Some 7) exSessions) ''b'' = None"
    using C[THEN conjunct2, THEN conjunct2, rule_format, OF m] .
  show ?thesis
    by (intro conjI) (rule run, rule m, rule l, rule g, rule dd, rule c1, rule c2)
qed
end
